theory Spec2Isabelle
  imports Complex_Main "HOL-Library.Multiset" "HOL-Library.Log_Nat"
begin

section \<open>Document scanner: corner ordering and scan pipeline\<close>

text \<open>
  A shallow embedding of the scanner service (\<^verbatim>\<open>processDocumentScan\<close> and its helper
  \<^verbatim>\<open>orderPoints\<close>). The sums, differences and distances of points are taken over the
  real numbers. The detection scale, the products by it and the quotients by it are rounded
  as the doubles of JavaScript are: what the code requests of the engine, and the corners
  it orders, depend on that rounding.
\<close>

subsection \<open>Points\<close>

text \<open>
  \<^verbatim>\<open>interface Point { x: number; y: number }\<close>. The fields are called \<open>px\<close> and \<open>py\<close>
  here, so that \<open>x\<close> and \<open>y\<close> stay available as variable names.
\<close>

record point =
  px :: real
  py :: real

definition coordSum :: "point \<Rightarrow> real" where
  "coordSum a = px a + py a"

definition coordDiff :: "point \<Rightarrow> real" where
  "coordDiff a = py a - px a"

subsection \<open>Arrays\<close>

text \<open>
  Reading a JavaScript array beyond its length gives \<^verbatim>\<open>undefined\<close>, modelled as
  \<open>None\<close>.
\<close>

definition jsIndex :: "'a list \<Rightarrow> nat \<Rightarrow> 'a option" where
  "jsIndex xs i = (if i < length xs then Some (xs ! i) else None)"

text \<open>
  \<^verbatim>\<open>Array.prototype.sort\<close> with a comparator \<^verbatim>\<open>(a, b) => key(a) - key(b)\<close> is a
  stable sort by \<open>key\<close>; \<open>sort_key\<close> is the stable insertion sort. Elements that
  are \<^verbatim>\<open>undefined\<close> are never passed to the comparator and end up last.
\<close>

definition jsSortBy :: "('a \<Rightarrow> real) \<Rightarrow> 'a list \<Rightarrow> 'a list" where
  "jsSortBy key xs = sort_key key xs"

definition jsSortByUndef :: "('a \<Rightarrow> real) \<Rightarrow> 'a option list \<Rightarrow> 'a option list" where
  "jsSortByUndef key xs =
     map Some (jsSortBy key (List.map_filter id xs)) @ filter (\<lambda>e. e = None) xs"

subsection \<open>orderPoints\<close>

definition orderPoints :: "point list \<Rightarrow> point option list" where
  "orderPoints points =
     (let sortedBySum = jsSortBy coordSum points;
          tl = jsIndex sortedBySum 0;
          br = jsIndex sortedBySum 3;
          remaining = [jsIndex sortedBySum 1, jsIndex sortedBySum 2];
          sortedByDiff = jsSortByUndef coordDiff remaining;
          tr = sortedByDiff ! 0;
          bl = sortedByDiff ! 1
      in [tl, tr, br, bl])"

subsection \<open>Output size\<close>

text \<open>\<^verbatim>\<open>Math.hypot\<close> on two arguments.\<close>

definition hypot :: "real \<Rightarrow> real \<Rightarrow> real" where
  "hypot a b = sqrt (a * a + b * b)"

text \<open>Step 3 of the rectification: the width and height of the output raster.\<close>

definition outputSize :: "point \<Rightarrow> point \<Rightarrow> point \<Rightarrow> point \<Rightarrow> real \<times> real" where
  "outputSize tl' tr' br' bl' =
     (let widthA = hypot (px br' - px bl') (py br' - py bl');
          widthB = hypot (px tr' - px tl') (py tr' - py tl');
          maxWidth = max widthA widthB;
          heightA = hypot (px tr' - px br') (py tr' - py br');
          heightB = hypot (px tl' - px bl') (py tl' - py bl');
          maxHeight = max heightA heightB
      in (maxWidth, maxHeight))"

subsection \<open>Doubles\<close>

text \<open>
  The result of an arithmetic operation on doubles is the exact result rounded to 53
  significant bits, to the nearest such number and, half way between two, to the one with
  the even significand. \<open>binade x\<close> is the exponent \<open>e\<close> with \<open>2 ^ e \<le> x < 2 ^ (e + 1)\<close>
  of a positive \<open>x\<close>. The exponent range of doubles is left out: the dimensions of a
  matrix and the coordinates of a contour are 32-bit integers, so that every number rounded
  here has a magnitude between \<open>2 ^ -22\<close> and \<open>2 ^ 53\<close>.
\<close>

definition roundEven :: "real \<Rightarrow> int" where
  "roundEven m =
     (let f = \<lfloor>m\<rfloor>; r = m - of_int f
      in if r < 1 / 2 then f else if 1 / 2 < r then f + 1 else if even f then f else f + 1)"

definition binade :: "real \<Rightarrow> int" where
  "binade x = (if 1 \<le> x then bitlen \<lfloor>x\<rfloor> - 1 else - bitlen (\<lceil>1 / x\<rceil> - 1))"

definition fl :: "real \<Rightarrow> real" where
  "fl x =
     (if x = 0 then 0
      else let e = binade \<bar>x\<bar> - 52 in of_int (roundEven (x / 2 powi e)) * 2 powi e)"

subsection \<open>Detection scale\<close>

text \<open>
  \<^verbatim>\<open>maxDim / src.rows\<close> is \<^verbatim>\<open>Infinity\<close> when the divisor is zero (the dividend
  is the positive constant 800), and \<^verbatim>\<open>Math.min\<close> ignores \<^verbatim>\<open>Infinity\<close> next to a
  finite argument. HOL's \<open>800 / 0 = 0\<close> would give another scale, so the quotient is a
  value of its own type. A finite quotient is rounded.
\<close>

datatype jsnum = Finite real | Infinity

definition jsDiv :: "real \<Rightarrow> real \<Rightarrow> jsnum" where
  "jsDiv a b = (if b = 0 then Infinity else Finite (fl (a / b)))"

fun jsMin :: "jsnum \<Rightarrow> jsnum \<Rightarrow> jsnum" where
  "jsMin (Finite a) (Finite b) = Finite (min a b)"
| "jsMin (Finite a) Infinity = Finite a"
| "jsMin Infinity b = b"

fun jsMinFinite :: "jsnum \<Rightarrow> real \<Rightarrow> real" where
  "jsMinFinite (Finite a) c = min a c"
| "jsMinFinite Infinity c = c"

definition maxDim :: real where
  "maxDim = 800"

text \<open>\<^verbatim>\<open>Math.min(maxDim / src.rows, maxDim / src.cols, 1)\<close>\<close>

definition scaleFactor :: "nat \<Rightarrow> nat \<Rightarrow> real" where
  "scaleFactor srcRows srcCols =
     jsMinFinite (jsMin (jsDiv maxDim (real srcRows)) (jsDiv maxDim (real srcCols))) 1"

text \<open>Step 1 of the rectification: the corners back in the coordinates of the full frame.\<close>

definition rescalePoints :: "real \<Rightarrow> point list \<Rightarrow> point list" where
  "rescalePoints scale maxContourData =
     map (\<lambda>p. \<lparr>px = fl (px p / scale), py = fl (py p / scale)\<rparr>) maxContourData"

subsection \<open>The canvas and the image-processing engine\<close>

text \<open>
  The canvas is the object the caller hands in and keeps; a \<open>mat\<close> is one of the
  engine's matrices. Their pixel content is a list of sample values.
\<close>

record canvas =
  cwidth :: nat
  cheight :: nat
  cpixels :: "nat list"

record mat =
  rows :: nat
  cols :: nat
  mdata :: "nat list"

text \<open>A contour, and a polygon approximating it, is a matrix of integer points.\<close>

type_synonym contour = "(int \<times> int) list"

text \<open>
  The engine is \<^verbatim>\<open>window.cv\<close>, of type \<^verbatim>\<open>any\<close>: the scanner is given whatever the
  page has loaded, so the engine is a parameter of the model. Every call into it may
  throw, which is the result \<open>None\<close>. A call returns its output matrix and leaves its
  input matrices as they are. \<open>cvLoaded\<close> is the probe
  \<^verbatim>\<open>window.cv && typeof window.cv.Mat !== 'undefined'\<close>; \<open>toDataURL\<close> is the
  canvas's own JPEG encoder at quality 0.9.
\<close>

record engine =
  cvLoaded :: bool
  imread :: "canvas \<Rightarrow> mat option"
  resize :: "mat \<Rightarrow> real \<times> real \<Rightarrow> mat option"
  copyTo :: "mat \<Rightarrow> mat option"
  cvtColor :: "mat \<Rightarrow> mat option"
  GaussianBlur :: "mat \<Rightarrow> real \<times> real \<Rightarrow> mat option"
  Canny :: "mat \<Rightarrow> real \<Rightarrow> real \<Rightarrow> mat option"
  findContours :: "mat \<Rightarrow> contour list option"
  contourArea :: "contour \<Rightarrow> real option"
  arcLength :: "contour \<Rightarrow> real option"
  approxPolyDP :: "contour \<Rightarrow> real \<Rightarrow> contour option"
  isContourConvex :: "contour \<Rightarrow> bool option"
  matFromArray :: "real list \<Rightarrow> real list option"
  getPerspectiveTransform :: "real list \<Rightarrow> real list \<Rightarrow> real list option"
  warpPerspective :: "mat \<Rightarrow> real list \<Rightarrow> real \<times> real \<Rightarrow> mat option"
  imshow :: "canvas \<Rightarrow> mat \<Rightarrow> canvas option"
  toDataURL :: "canvas \<Rightarrow> string option"

subsection \<open>State, exceptions and buffers\<close>

text \<open>
  The buffers the call allocates and deletes somewhere, and the calls that can throw.
  The handle that \<^verbatim>\<open>contours.get(i)\<close> returns is deleted on no path and is not
  among them. \<open>AtCornerRead\<close> is the \<^verbatim>\<open>TypeError\<close> of reading a coordinate of
  an undefined corner.
\<close>

datatype buffer =
  Src | Dst | SmallSrc | Gray | Blurred | Edges | Contours | Hierarchy | Approx
  | SrcTri | DstTri | MTransform

datatype stage =
  AtImread | AtResize | AtCopyTo | AtCvtColor | AtGaussianBlur | AtCanny | AtFindContours
  | AtContourArea | AtArcLength | AtApproxPolyDP | AtIsContourConvex | AtCornerRead
  | AtMatFromArray | AtGetPerspectiveTransform | AtWarpPerspective | AtImshow | AtToDataURL

record scanState =
  canvasNow :: canvas
  live :: "buffer set"

text \<open>
  A statement of the \<^verbatim>\<open>try\<close> block runs on the state and either yields a value or
  throws; the state at the throw is the state the handler finds.
\<close>

type_synonym 'a scan = "scanState \<Rightarrow> scanState \<times> (stage + 'a)"

definition ret :: "'a \<Rightarrow> 'a scan" where
  "ret v = (\<lambda>s. (s, Inr v))"

definition bnd :: "'a scan \<Rightarrow> ('a \<Rightarrow> 'b scan) \<Rightarrow> 'b scan" where
  "bnd m f = (\<lambda>s. case m s of (s', Inl e) \<Rightarrow> (s', Inl e) | (s', Inr v) \<Rightarrow> f v s')"

definition throw :: "stage \<Rightarrow> 'a scan" where
  "throw st = (\<lambda>s. (s, Inl st))"

definition call :: "stage \<Rightarrow> 'a option \<Rightarrow> 'a scan" where
  "call st r = (case r of None \<Rightarrow> throw st | Some v \<Rightarrow> ret v)"

definition alloc :: "buffer \<Rightarrow> unit scan" where
  "alloc b = (\<lambda>s. (s\<lparr>live := insert b (live s)\<rparr>, Inr ()))"

definition free :: "buffer \<Rightarrow> unit scan" where
  "free b = (\<lambda>s. (s\<lparr>live := live s - {b}\<rparr>, Inr ()))"

text \<open>The three statements that touch the canvas.\<close>

definition imreadCanvas :: "engine \<Rightarrow> mat scan" where
  "imreadCanvas E = (\<lambda>s. call AtImread (imread E (canvasNow s)) s)"

definition imshowCanvas :: "engine \<Rightarrow> mat \<Rightarrow> unit scan" where
  "imshowCanvas E m =
     (\<lambda>s. case imshow E (canvasNow s) m of
             None \<Rightarrow> (s, Inl AtImshow)
           | Some c \<Rightarrow> (s\<lparr>canvasNow := c\<rparr>, Inr ()))"

definition toDataURLCanvas :: "engine \<Rightarrow> string scan" where
  "toDataURLCanvas E = (\<lambda>s. call AtToDataURL (toDataURL E (canvasNow s)) s)"

subsection \<open>The largest quadrilateral\<close>

text \<open>The four points read from \<^verbatim>\<open>approx.data32S\<close>.\<close>

definition extractPoints :: "contour \<Rightarrow> point list" where
  "extractPoints approx =
     map (\<lambda>j. \<lparr>px = real_of_int (fst (approx ! j)), py = real_of_int (snd (approx ! j))\<rparr>)
       [0..<4]"

text \<open>
  One iteration of the loop over the contours, on \<open>(maxArea, maxContourData)\<close>.
  \<^verbatim>\<open>continue\<close> leaves the pair as it is; \<^verbatim>\<open>&&\<close> asks for convexity only when the
  approximation has four rows.
\<close>

definition scanContour ::
  "engine \<Rightarrow> contour \<Rightarrow> real \<times> point list option \<Rightarrow> (real \<times> point list option) scan" where
  "scanContour E contour acc =
     bnd (call AtContourArea (contourArea E contour)) (\<lambda>area.
       if area < 5000 then ret acc
       else
         bnd (call AtArcLength (arcLength E contour)) (\<lambda>peri.
         bnd (alloc Approx) (\<lambda>_.
         bnd (call AtApproxPolyDP (approxPolyDP E contour (0.02 * peri))) (\<lambda>approx.
         bnd (if length approx = 4 then call AtIsContourConvex (isContourConvex E approx)
              else ret False) (\<lambda>isQuad.
         bnd (ret (if isQuad \<and> area > fst acc then (area, Some (extractPoints approx))
                   else acc)) (\<lambda>acc'.
         bnd (free Approx) (\<lambda>_. ret acc')))))))"

primrec scanContours ::
  "engine \<Rightarrow> contour list \<Rightarrow> real \<times> point list option \<Rightarrow> (real \<times> point list option) scan"
  where
  "scanContours E [] acc = ret acc"
| "scanContours E (contour # rest) acc = bnd (scanContour E contour acc) (scanContours E rest)"

subsection \<open>The pipeline\<close>

text \<open>Downscale for detection.\<close>

definition downscale :: "engine \<Rightarrow> mat \<Rightarrow> real \<Rightarrow> mat scan" where
  "downscale E src scale =
     (if scale < 1
      then call AtResize
             (resize E src (fl (real (cols src) * scale), fl (real (rows src) * scale)))
      else call AtCopyTo (copyTo E src))"

text \<open>Pre-processing: grey scale, blur, edges.\<close>

definition preprocess :: "engine \<Rightarrow> mat \<Rightarrow> mat scan" where
  "preprocess E smallSrc =
     bnd (alloc Gray) (\<lambda>_.
     bnd (alloc Blurred) (\<lambda>_.
     bnd (alloc Edges) (\<lambda>_.
     bnd (call AtCvtColor (cvtColor E smallSrc)) (\<lambda>gray.
     bnd (call AtGaussianBlur (GaussianBlur E gray (5, 5))) (\<lambda>blurred.
     call AtCanny (Canny E blurred 75 200))))))"

text \<open>Find the contours, then the largest quadrilateral among them.\<close>

definition findLargestQuad :: "engine \<Rightarrow> mat \<Rightarrow> (real \<times> point list option) scan" where
  "findLargestQuad E edges =
     bnd (alloc Contours) (\<lambda>_.
     bnd (alloc Hierarchy) (\<lambda>_.
     bnd (call AtFindContours (findContours E edges)) (\<lambda>contours.
     scanContours E contours (0, None))))"

text \<open>A document was found: scale, order, size, warp, show, release the transform.\<close>

definition rectify :: "engine \<Rightarrow> mat \<Rightarrow> real \<Rightarrow> point list \<Rightarrow> unit scan" where
  "rectify E src scale maxContourData =
     (let points = rescalePoints scale maxContourData in
      case orderPoints points of
        [Some tl', Some tr', Some br', Some bl'] \<Rightarrow>
          (let (maxWidth, maxHeight) = outputSize tl' tr' br' bl' in
           bnd (call AtMatFromArray
                  (matFromArray E
                     [px tl', py tl', px tr', py tr', px br', py br', px bl', py bl']))
             (\<lambda>srcTri.
           bnd (alloc SrcTri) (\<lambda>_.
           bnd (call AtMatFromArray
                  (matFromArray E [0, 0, maxWidth, 0, maxWidth, maxHeight, 0, maxHeight]))
             (\<lambda>dstTri.
           bnd (alloc DstTri) (\<lambda>_.
           bnd (call AtGetPerspectiveTransform (getPerspectiveTransform E srcTri dstTri))
             (\<lambda>M.
           bnd (alloc MTransform) (\<lambda>_.
           bnd (call AtWarpPerspective (warpPerspective E src M (maxWidth, maxHeight)))
             (\<lambda>dst.
           bnd (imshowCanvas E dst) (\<lambda>_.
           bnd (free SrcTri) (\<lambda>_.
           bnd (free DstTri) (\<lambda>_.
           free MTransform)))))))))))
      | _ \<Rightarrow> throw AtCornerRead)"

text \<open>Cleanup of the common matrices.\<close>

definition cleanup :: "unit scan" where
  "cleanup =
     bnd (free Src) (\<lambda>_. bnd (free Dst) (\<lambda>_. bnd (free SmallSrc) (\<lambda>_.
     bnd (free Gray) (\<lambda>_. bnd (free Blurred) (\<lambda>_. bnd (free Edges) (\<lambda>_.
     bnd (free Contours) (\<lambda>_. free Hierarchy)))))))"

text \<open>
  The body of the \<^verbatim>\<open>try\<close> block. Its value says whether a document was found, and
  holds the data URL.
\<close>

definition scanBody :: "engine \<Rightarrow> (bool \<times> string) scan" where
  "scanBody E =
     bnd (imreadCanvas E) (\<lambda>src.
     bnd (alloc Src) (\<lambda>_.
     bnd (alloc Dst) (\<lambda>_.
     bnd (alloc SmallSrc) (\<lambda>_.
     bnd (ret (scaleFactor (rows src) (cols src))) (\<lambda>scale.
     bnd (downscale E src scale) (\<lambda>smallSrc.
     bnd (preprocess E smallSrc) (\<lambda>edges.
     bnd (findLargestQuad E edges) (\<lambda>best.
     bnd (case snd best of
            Some maxContourData \<Rightarrow> rectify E src scale maxContourData
          | None \<Rightarrow> imshowCanvas E src) (\<lambda>_.
     bnd cleanup (\<lambda>_.
     bnd (toDataURLCanvas E) (\<lambda>url.
     ret (snd best \<noteq> None, url))))))))))))"

text \<open>
  How a call ends: the engine is not loaded, or a statement of the \<^verbatim>\<open>try\<close> block
  threw and the handler took over, or the block ran to its \<^verbatim>\<open>return\<close> on the
  rectification path or on the fallback path.
\<close>

datatype outcome = Unavailable | Failed stage | Rectified string | Fallback string

definition runScan :: "engine \<Rightarrow> canvas \<Rightarrow> scanState \<times> outcome" where
  "runScan E canvas =
     (let s0 = \<lparr>canvasNow = canvas, live = {}\<rparr> in
      if \<not> cvLoaded E then (s0, Unavailable)
      else
        case scanBody E s0 of
          (s', Inl st) \<Rightarrow> (s', Failed st)
        | (s', Inr (found, url)) \<Rightarrow> (s', if found then Rectified url else Fallback url))"

text \<open>The value the promise resolves to: a data URL, or \<^verbatim>\<open>null\<close>.\<close>

definition processDocumentScan :: "engine \<Rightarrow> canvas \<Rightarrow> string option" where
  "processDocumentScan E canvas =
     (case snd (runScan E canvas) of
        Rectified url \<Rightarrow> Some url
      | Fallback url \<Rightarrow> Some url
      | Failed st \<Rightarrow> None
      | Unavailable \<Rightarrow> None)"

text \<open>What the caller finds afterwards: its canvas, and the buffers never released.\<close>

definition canvasAfter :: "engine \<Rightarrow> canvas \<Rightarrow> canvas" where
  "canvasAfter E canvas = canvasNow (fst (runScan E canvas))"

definition leakedBuffers :: "engine \<Rightarrow> canvas \<Rightarrow> buffer set" where
  "leakedBuffers E canvas = live (fst (runScan E canvas))"

subsection \<open>Notions of the specification\<close>

text \<open>
  The definitions of this subsection follow the words of the specification; the theorems
  compare them with the code above.
\<close>











text \<open>No call into the engine throws, whatever its arguments.\<close>

definition neverThrows :: "engine \<Rightarrow> bool" where
  "neverThrows E =
     ((\<forall>c. imread E c \<noteq> None) \<and> (\<forall>m d. resize E m d \<noteq> None) \<and>
      (\<forall>m. copyTo E m \<noteq> None) \<and> (\<forall>m. cvtColor E m \<noteq> None) \<and>
      (\<forall>m k. GaussianBlur E m k \<noteq> None) \<and> (\<forall>m lo hi. Canny E m lo hi \<noteq> None) \<and>
      (\<forall>m. findContours E m \<noteq> None) \<and> (\<forall>c. contourArea E c \<noteq> None) \<and>
      (\<forall>c. arcLength E c \<noteq> None) \<and> (\<forall>c eps. approxPolyDP E c eps \<noteq> None) \<and>
      (\<forall>c. isContourConvex E c \<noteq> None) \<and> (\<forall>xs. matFromArray E xs \<noteq> None) \<and>
      (\<forall>a b. getPerspectiveTransform E a b \<noteq> None) \<and>
      (\<forall>m t d. warpPerspective E m t d \<noteq> None) \<and> (\<forall>c m. imshow E c m \<noteq> None) \<and>
      (\<forall>c. toDataURL E c \<noteq> None))"

subsection \<open>Notions of the proofs\<close>


text \<open>
  A statement leaves the canvas alone; and a statement throws at \<^verbatim>\<open>imshow\<close> or
  \<^verbatim>\<open>toDataURL\<close> only.
\<close>

definition keepsCanvas :: "'a scan \<Rightarrow> bool" where
  "keepsCanvas m = (\<forall>s s' r. m s = (s', r) \<longrightarrow> canvasNow s' = canvasNow s)"

definition throwsLate :: "'a scan \<Rightarrow> bool" where
  "throwsLate m = (\<forall>s s' st. m s = (s', Inl st) \<longrightarrow> st = AtImshow \<or> st = AtToDataURL)"

text \<open>
  A statement returns, with a value that satisfies \<open>P\<close>; the corners kept by the loop
  are four; and a statement that throws before \<^verbatim>\<open>imshow\<close> leaves the canvas alone.
\<close>

definition yields :: "'a scan \<Rightarrow> ('a \<Rightarrow> bool) \<Rightarrow> bool" where
  "yields m P = (\<forall>s. \<exists>s' v. m s = (s', Inr v) \<and> P v)"

definition fourCorners :: "real \<times> point list option \<Rightarrow> bool" where
  "fourCorners acc = (case snd acc of None \<Rightarrow> True | Some d \<Rightarrow> length d = 4)"

definition earlyThrowKeeps :: "'a scan \<Rightarrow> bool" where
  "earlyThrowKeeps m =
     (\<forall>s s' st. m s = (s', Inl st) \<longrightarrow>
        st = AtImshow \<or> st = AtToDataURL \<or> canvasNow s' = canvasNow s)"

subsection \<open>Concrete inputs\<close>

text \<open>
  The four corners of the scenario frame: a 600 by 400 axis-aligned quadrilateral.
\<close>

definition scenarioCorners :: "point list" where
  "scenarioCorners =
     [\<lparr>px = 200, py = 300\<rparr>, \<lparr>px = 800, py = 300\<rparr>, \<lparr>px = 800, py = 700\<rparr>,
      \<lparr>px = 200, py = 700\<rparr>]"



text \<open>
  A small engine to run the pipeline on: it throws at the call named by \<open>failAt\<close>, if
  any, and finds the contours it is given. Reading a canvas and showing the matrix again
  restores the canvas; the area of a contour is that of its polygon.
\<close>

definition demoCall :: "stage option \<Rightarrow> stage \<Rightarrow> 'a \<Rightarrow> 'a option" where
  "demoCall failAt st v = (if failAt = Some st then None else Some v)"

definition polygonArea :: "contour \<Rightarrow> real" where
  "polygonArea c =
     \<bar>real_of_int (sum_list (map2 (\<lambda>(x1, y1) (x2, y2). x1 * y2 - x2 * y1) c (rotate1 c)))\<bar> / 2"

definition demoEngine :: "stage option \<Rightarrow> contour list \<Rightarrow> engine" where
  "demoEngine failAt contours =
     \<lparr>cvLoaded = True,
      imread = (\<lambda>c. demoCall failAt AtImread
                  \<lparr>rows = cheight c, cols = cwidth c, mdata = cpixels c\<rparr>),
      resize = (\<lambda>m d. demoCall failAt AtResize
                  \<lparr>rows = nat \<lfloor>snd d\<rfloor>, cols = nat \<lfloor>fst d\<rfloor>, mdata = []\<rparr>),
      copyTo = (\<lambda>m. demoCall failAt AtCopyTo m),
      cvtColor = (\<lambda>m. demoCall failAt AtCvtColor m),
      GaussianBlur = (\<lambda>m k. demoCall failAt AtGaussianBlur m),
      Canny = (\<lambda>m lo hi. demoCall failAt AtCanny m),
      findContours = (\<lambda>m. demoCall failAt AtFindContours contours),
      contourArea = (\<lambda>c. demoCall failAt AtContourArea (polygonArea c)),
      arcLength = (\<lambda>c. demoCall failAt AtArcLength 0),
      approxPolyDP = (\<lambda>c eps. demoCall failAt AtApproxPolyDP c),
      isContourConvex = (\<lambda>c. demoCall failAt AtIsContourConvex True),
      matFromArray = (\<lambda>xs. demoCall failAt AtMatFromArray xs),
      getPerspectiveTransform = (\<lambda>a b. demoCall failAt AtGetPerspectiveTransform (a @ b)),
      warpPerspective = (\<lambda>m t d. demoCall failAt AtWarpPerspective
                  \<lparr>rows = nat \<lfloor>snd d\<rfloor>, cols = nat \<lfloor>fst d\<rfloor>, mdata = []\<rparr>),
      imshow = (\<lambda>c m. demoCall failAt AtImshow
                  \<lparr>cwidth = cols m, cheight = rows m, cpixels = mdata m\<rparr>),
      toDataURL = (\<lambda>c. demoCall failAt AtToDataURL ''data:image/jpeg'')\<rparr>"

text \<open>
  A frame of 1000 by 1000 pixels, and the scenario's quadrilateral as the detection
  finds it at scale 0.8.
\<close>

definition demoCanvas :: canvas where
  "demoCanvas = \<lparr>cwidth = 1000, cheight = 1000, cpixels = [0, 255, 255, 0]\<rparr>"

definition demoContour :: contour where
  "demoContour = [(160, 240), (640, 240), (640, 560), (160, 560)]"

definition smallContour :: contour where
  "smallContour = [(0, 0), (50, 0), (50, 50), (0, 50)]"

text \<open>A frame of 4624 by 3468 pixels, as the engine reads it.\<close>

definition wideFrame :: mat where
  "wideFrame = \<lparr>rows = 3468, cols = 4624, mdata = []\<rparr>"

text \<open>The engine that is not loaded.\<close>

definition unloadedEngine :: engine where
  "unloadedEngine = (demoEngine None [])\<lparr>cvLoaded := False\<rparr>"

section \<open>Properties of orderPoints\<close>

lemma length4E: "length xs = 4 \<Longrightarrow> \<exists>a b c d. xs = [a, b, c, d]"
  by (cases xs; simp; cases "tl xs"; simp; cases "tl (tl xs)"; simp;
      cases "tl (tl (tl xs))"; simp)

lemma sortedBySum4:
  assumes "length ps = 4"
  shows "\<exists>a b c d. jsSortBy coordSum ps = [a, b, c, d] \<and> coordSum a \<le> coordSum b \<and>
          coordSum b \<le> coordSum c \<and> coordSum c \<le> coordSum d \<and> mset ps = {#a, b, c, d#}"
proof -
  have "length (jsSortBy coordSum ps) = 4"
    using assms by (simp add: jsSortBy_def)
  then obtain a b c d where s: "jsSortBy coordSum ps = [a, b, c, d]"
    using length4E by blast
  have "sorted (map coordSum (jsSortBy coordSum ps))"
    by (simp add: jsSortBy_def)
  hence o: "coordSum a \<le> coordSum b \<and> coordSum b \<le> coordSum c \<and> coordSum c \<le> coordSum d"
    by (simp add: s)
  have "mset (jsSortBy coordSum ps) = mset ps"
    by (simp add: jsSortBy_def)
  hence "mset ps = {#a, b, c, d#}"
    by (simp add: s)
  with s o show ?thesis by blast
qed

lemma orderPoints_sorted4:
  assumes "jsSortBy coordSum ps = [a, b, c, d]"
  shows "orderPoints ps =
           [Some a, Some (if coordDiff b \<le> coordDiff c then b else c), Some d,
            Some (if coordDiff b \<le> coordDiff c then c else b)]"
  using assms
  by (simp add: orderPoints_def jsIndex_def jsSortByUndef_def List.map_filter_simps Let_def
      jsSortBy_def)



lemma insort_key_map:
  "insort_key f (g x) (map g xs) = map g (insort_key (\<lambda>i. f (g i)) x xs)"
  by (induction xs) simp_all

lemma sort_key_map: "sort_key f (map g xs) = map g (sort_key (\<lambda>i. f (g i)) xs)"
  by (induction xs) (simp_all add: insort_key_map)

lemma sortedBySum_positions:
  "\<exists>is. mset is = mset [0..<length ps] \<and> jsSortBy coordSum ps = map ((!) ps) is"
proof -
  let ?is = "sort_key (\<lambda>i. coordSum (ps ! i)) [0..<length ps]"
  have "jsSortBy coordSum ps = sort_key coordSum (map ((!) ps) [0..<length ps])"
    by (simp add: jsSortBy_def map_nth)
  also have "\<dots> = map ((!) ps) ?is"
    by (rule sort_key_map)
  finally have "jsSortBy coordSum ps = map ((!) ps) ?is" .
  moreover have "mset ?is = mset [0..<length ps]"
    by simp
  ultimately show ?thesis by blast
qed

lemma orderPoints_positions:
  assumes "length ps = 4"
  shows "\<exists>is. mset is = mset [0..<4] \<and> orderPoints ps = map (\<lambda>i. Some (ps ! i)) is"
proof -
  from sortedBySum_positions [of ps] assms obtain js where
    m: "mset js = mset [0..<4]" and s: "jsSortBy coordSum ps = map ((!) ps) js"
    by auto
  from m have "length js = 4"
    by (metis length_upt size_mset diff_zero)
  then obtain i0 i1 i2 i3 where js: "js = [i0, i1, i2, i3]"
    using length4E by blast
  have s4: "jsSortBy coordSum ps = [ps ! i0, ps ! i1, ps ! i2, ps ! i3]"
    using s js by simp
  show ?thesis
  proof (cases "coordDiff (ps ! i1) \<le> coordDiff (ps ! i2)")
    case True
    have "orderPoints ps = map (\<lambda>i. Some (ps ! i)) [i0, i1, i3, i2]"
      using orderPoints_sorted4 [OF s4] True by simp
    moreover have "mset [i0, i1, i3, i2] = mset [0..<4]"
      using m js by (simp add: add_mset_commute)
    ultimately show ?thesis by blast
  next
    case False
    have "orderPoints ps = map (\<lambda>i. Some (ps ! i)) [i0, i2, i3, i1]"
      using orderPoints_sorted4 [OF s4] False by simp
    moreover have "mset [i0, i2, i3, i1] = mset [0..<4]"
      using m js by (simp add: add_mset_commute)
    ultimately show ?thesis by blast
  qed
qed

text \<open>
  C10. For a list of exactly four points the result has four entries, none of them
  undefined, and it is a permutation of the input: the four outputs are the input points
  at four positions that are a rearrangement of the positions 0, 1, 2, 3, so no input
  point is used twice and none is dropped, also when sums or differences coincide.
\<close>

theorem orderPoints_permutation:
  assumes "length points = 4"
  shows "(\<exists>is. mset is = mset [0..<4] \<and> orderPoints points = map (\<lambda>i. Some (points ! i)) is) \<and>
         mset (orderPoints points) = mset (map Some points) \<and>
         length (orderPoints points) = 4 \<and> None \<notin> set (orderPoints points) \<and>
         mset (map the (orderPoints points)) = mset points"
proof -
  from sortedBySum4 [OF assms] obtain a b c d where
    s: "jsSortBy coordSum points = [a, b, c, d]" and
    m: "mset points = {#a, b, c, d#}" by blast
  have "mset (map Some points) = image_mset Some (mset points)" by simp
  hence m': "mset (map Some points) = {#Some a, Some b, Some c, Some d#}"
    by (simp add: m)
  show ?thesis
    using orderPoints_positions [OF assms] orderPoints_sorted4 [OF s] m m' by simp
qed

theorem orderPoints_permutation_witness:
  "length scenarioCorners = 4 \<and>
   (\<exists>is. mset is = mset [0..<4] \<and>
      orderPoints scenarioCorners = map (\<lambda>i. Some (scenarioCorners ! i)) is) \<and>
   mset (orderPoints scenarioCorners) = mset (map Some scenarioCorners) \<and>
   length (orderPoints scenarioCorners) = 4 \<and> None \<notin> set (orderPoints scenarioCorners) \<and>
   mset (map the (orderPoints scenarioCorners)) = mset scenarioCorners"
proof -
  have h: "length scenarioCorners = 4" by (simp add: scenarioCorners_def)
  show ?thesis using h orderPoints_permutation [OF h] by blast
qed

lemmas orderPoints_eval =
  orderPoints_def jsIndex_def jsSortByUndef_def List.map_filter_simps Let_def jsSortBy_def
  coordSum_def coordDiff_def









section \<open>Output size and detection scale\<close>









subsection \<open>Rounding\<close>

lemma binade_bounds:
  assumes "0 < x"
  shows "2 powi binade x \<le> x \<and> x < 2 powi (binade x + 1)"
proof (cases "1 \<le> x")
  case True
  let ?n = "\<lfloor>x\<rfloor>"
  have n: "0 < ?n" using True by simp
  from bitlen_bounds [OF n] have b: "2 ^ nat (bitlen ?n - 1) \<le> ?n" "?n < 2 ^ nat (bitlen ?n)"
    by auto
  have b1: "1 \<le> bitlen ?n" using n by (auto simp: bitlen_alt_def)
  have "(2::real) ^ nat (bitlen ?n - 1) = real_of_int (2 ^ nat (bitlen ?n - 1))" by simp
  also have "\<dots> \<le> real_of_int ?n" using b(1) by (simp only: of_int_le_iff)
  also have "\<dots> \<le> x" by simp
  finally have lo: "(2::real) ^ nat (bitlen ?n - 1) \<le> x" .
  have "?n + 1 \<le> 2 ^ nat (bitlen ?n)" using b(2) by simp
  hence "real_of_int (?n + 1) \<le> real_of_int (2 ^ nat (bitlen ?n))"
    by (simp only: of_int_le_iff)
  moreover have "x < real_of_int (?n + 1)" by simp
  ultimately have "x < real_of_int (2 ^ nat (bitlen ?n))" by linarith
  hence hi: "x < (2::real) ^ nat (bitlen ?n)" by simp
  have e: "binade x = bitlen ?n - 1" using True by (simp add: binade_def)
  have "0 \<le> bitlen ?n - 1" "0 \<le> bitlen ?n - 1 + 1" using b1 by simp_all
  hence "(2::real) powi (bitlen ?n - 1) = 2 ^ nat (bitlen ?n - 1)"
    "(2::real) powi (bitlen ?n - 1 + 1) = 2 ^ nat (bitlen ?n)"
    by (simp_all add: power_int_nonneg_exp)
  thus ?thesis using lo hi by (simp only: e)
next
  case False
  let ?y = "1 / x"
  let ?d = "\<lceil>?y\<rceil> - 1"
  have y: "1 < ?y" using False assms by simp
  hence "1 < \<lceil>?y\<rceil>" by (simp add: less_ceiling_iff)
  hence d: "0 < ?d" by simp
  from bitlen_bounds [OF d] have b: "2 ^ nat (bitlen ?d - 1) \<le> ?d" "?d < 2 ^ nat (bitlen ?d)"
    by auto
  have b1: "1 \<le> bitlen ?d" using d by (auto simp: bitlen_alt_def)
  have "?d + 1 \<le> 2 ^ nat (bitlen ?d)" using b(2) by simp
  hence "real_of_int (?d + 1) \<le> real_of_int (2 ^ nat (bitlen ?d))"
    by (simp only: of_int_le_iff)
  moreover have "?y \<le> real_of_int (?d + 1)" by simp
  ultimately have "?y \<le> real_of_int (2 ^ nat (bitlen ?d))" by linarith
  hence "?y \<le> (2::real) ^ nat (bitlen ?d)" by simp
  hence lo: "1 / (2::real) ^ nat (bitlen ?d) \<le> x"
    using assms by (simp add: field_simps)
  have "(2::real) ^ nat (bitlen ?d - 1) = real_of_int (2 ^ nat (bitlen ?d - 1))" by simp
  also have "\<dots> \<le> real_of_int ?d" using b(1) by (simp only: of_int_le_iff)
  also have "\<dots> < ?y" by (simp add: ceiling_correct [of ?y] less_ceiling_iff [symmetric])
  finally have "(2::real) ^ nat (bitlen ?d - 1) < ?y" .
  hence hi: "x < 1 / (2::real) ^ nat (bitlen ?d - 1)"
    using assms by (simp add: field_simps)
  have e: "binade x = - bitlen ?d" using False by (simp add: binade_def)
  have p1: "(2::real) powi (- bitlen ?d) = 1 / 2 ^ nat (bitlen ?d)"
    using b1 by (simp add: power_int_minus power_int_nonneg_exp field_simps)
  have p2: "(2::real) powi (- bitlen ?d + 1) = 1 / 2 ^ nat (bitlen ?d - 1)"
  proof -
    have "- bitlen ?d + 1 = - (bitlen ?d - 1)" by simp
    moreover have "0 \<le> bitlen ?d - 1" using b1 by simp
    ultimately show ?thesis
      by (simp only: power_int_minus power_int_nonneg_exp) (simp add: field_simps)
  qed
  show ?thesis using lo hi by (simp only: e p1 p2)
qed

lemma two_powi_pos: "0 < (2::real) powi e"
  by (simp add: power_int_def)

lemma two_powi_mono: "a \<le> b \<Longrightarrow> (2::real) powi a \<le> 2 powi b"
  by (rule power_int_increasing) simp_all

lemma two_powi_Suc: "(2::real) powi (e + 1) = 2 * 2 powi e"
  by (simp add: power_int_add)

lemma binade_unique:
  assumes "0 < x" and "2 powi e \<le> x" and "x < 2 powi (e + 1)"
  shows "binade x = e"
proof (rule antisym)
  show "binade x \<le> e"
  proof (rule ccontr)
    assume "\<not> binade x \<le> e"
    hence "e + 1 \<le> binade x" by simp
    hence "(2::real) powi (e + 1) \<le> 2 powi binade x" by (rule two_powi_mono)
    with binade_bounds [OF assms(1)] assms(3) show False by simp
  qed
  show "e \<le> binade x"
  proof (rule ccontr)
    assume "\<not> e \<le> binade x"
    hence "binade x + 1 \<le> e" by simp
    hence "(2::real) powi (binade x + 1) \<le> 2 powi e" by (rule two_powi_mono)
    with binade_bounds [OF assms(1)] assms(2) show False by simp
  qed
qed

lemma binade_mono:
  assumes "0 < x" and "x \<le> y"
  shows "binade x \<le> binade y"
proof (rule ccontr)
  assume "\<not> binade x \<le> binade y"
  hence "binade y + 1 \<le> binade x" by simp
  hence "(2::real) powi (binade y + 1) \<le> 2 powi binade x" by (rule two_powi_mono)
  moreover have "0 < y" using assms by simp
  ultimately show False
    using binade_bounds [OF assms(1)] binade_bounds [OF \<open>0 < y\<close>] assms(2) by simp
qed

lemma roundEven_of_int: "roundEven (of_int k) = k"
  by (simp add: roundEven_def)

lemma roundEven_mono:
  assumes "m \<le> n"
  shows "roundEven m \<le> roundEven n"
proof (cases "\<lfloor>m\<rfloor> = \<lfloor>n\<rfloor>")
  case True
  then show ?thesis using assms by (auto simp: roundEven_def Let_def)
next
  case False
  with assms have "\<lfloor>m\<rfloor> < \<lfloor>n\<rfloor>" using floor_mono [OF assms] by simp
  hence "\<lfloor>m\<rfloor> + 1 \<le> \<lfloor>n\<rfloor>" by simp
  moreover have "roundEven m \<le> \<lfloor>m\<rfloor> + 1" by (simp add: roundEven_def Let_def)
  moreover have "\<lfloor>n\<rfloor> \<le> roundEven n" by (simp add: roundEven_def Let_def)
  ultimately show ?thesis by simp
qed

lemma roundEven_ge: "of_int k \<le> m \<Longrightarrow> k \<le> roundEven m"
  using roundEven_mono [of "of_int k" m] by (simp add: roundEven_of_int)

lemma roundEven_le: "m \<le> of_int k \<Longrightarrow> roundEven m \<le> k"
  using roundEven_mono [of m "of_int k"] by (simp add: roundEven_of_int)

lemma roundEven_error: "\<bar>real_of_int (roundEven m) - m\<bar> \<le> 1 / 2"
proof -
  have "real_of_int \<lfloor>m\<rfloor> \<le> m" "m < real_of_int \<lfloor>m\<rfloor> + 1" by simp_all
  thus ?thesis by (auto simp: roundEven_def Let_def abs_le_iff)
qed

lemma fl_pos_eq:
  assumes "0 < x"
  shows "fl x = of_int (roundEven (x / 2 powi (binade x - 52))) * 2 powi (binade x - 52)"
  using assms by (simp add: fl_def Let_def)

lemma fl_eqI:
  assumes "0 < x" and "2 powi b \<le> x" and "x < 2 powi (b + 1)"
    and "roundEven (x / 2 powi (b - 52)) = k"
  shows "fl x = of_int k * 2 powi (b - 52)"
  using binade_unique [OF assms(1-3)] assms(4) fl_pos_eq [OF assms(1)] by simp

lemma fl_in_binade:
  assumes "0 < x"
  shows "2 powi binade x \<le> fl x \<and> fl x \<le> 2 powi (binade x + 1)"
proof -
  let ?e = "binade x - 52"
  let ?u = "(2::real) powi ?e"
  have u: "0 < ?u" by (rule two_powi_pos)
  have s1: "(2::real) powi binade x = 2 ^ 52 * ?u"
    using power_int_add [of "2::real" 52 ?e] by simp
  have s2: "(2::real) powi (binade x + 1) = 2 ^ 53 * ?u"
    using power_int_add [of "2::real" 53 ?e] by (simp add: add.commute)
  from binade_bounds [OF assms] have "2 ^ 52 * ?u \<le> x" "x < 2 ^ 53 * ?u"
    by (simp_all only: s1 s2)
  hence "real_of_int (2 ^ 52) \<le> x / ?u" "x / ?u \<le> real_of_int (2 ^ 53)"
    using u by (simp_all add: field_simps)
  hence "2 ^ 52 \<le> roundEven (x / ?u)" "roundEven (x / ?u) \<le> 2 ^ 53"
    by (auto intro: roundEven_ge roundEven_le)
  hence "real_of_int (2 ^ 52) \<le> real_of_int (roundEven (x / ?u))"
    "real_of_int (roundEven (x / ?u)) \<le> real_of_int (2 ^ 53)"
    by (simp_all only: of_int_le_iff)
  hence "2 ^ 52 * ?u \<le> of_int (roundEven (x / ?u)) * ?u"
    "of_int (roundEven (x / ?u)) * ?u \<le> 2 ^ 53 * ?u"
    using u by simp_all
  thus ?thesis by (simp only: s1 s2 fl_pos_eq [OF assms])
qed

lemma fl_pos: "0 < x \<Longrightarrow> 0 < fl x"
  using fl_in_binade [of x] two_powi_pos [of "binade x"] by linarith

lemma fl_mono_pos:
  assumes "0 < x" and "x \<le> y"
  shows "fl x \<le> fl y"
proof (cases "binade x = binade y")
  case True
  have y: "0 < y" using assms by simp
  let ?u = "(2::real) powi (binade y - 52)"
  have u: "0 < ?u" by (rule two_powi_pos)
  have "x / ?u \<le> y / ?u" using assms(2) u by (simp add: divide_right_mono)
  hence "roundEven (x / ?u) \<le> roundEven (y / ?u)" by (rule roundEven_mono)
  hence "real_of_int (roundEven (x / ?u)) * ?u \<le> real_of_int (roundEven (y / ?u)) * ?u"
    using u by simp
  thus ?thesis by (simp add: fl_pos_eq [OF assms(1)] fl_pos_eq [OF y] True)
next
  case False
  have y: "0 < y" using assms by simp
  from False binade_mono [OF assms] have "binade x + 1 \<le> binade y" by simp
  hence "(2::real) powi (binade x + 1) \<le> 2 powi binade y" by (rule two_powi_mono)
  thus ?thesis using fl_in_binade [OF assms(1)] fl_in_binade [OF y] by linarith
qed

lemma fl_zero: "fl 0 = 0"
  by (simp add: fl_def)

lemma fl_mono:
  assumes "0 \<le> x" and "x \<le> y"
  shows "fl x \<le> fl y"
proof (cases "x = 0")
  case True
  show ?thesis
  proof (cases "y = 0")
    case False
    with assms True have "0 < y" by simp
    from fl_pos [OF this] True show ?thesis by (simp add: fl_zero)
  qed (simp add: True)
next
  case False
  with assms have "0 < x" by simp
  thus ?thesis using assms(2) by (rule fl_mono_pos)
qed

lemma fl_error:
  assumes "0 < x"
  shows "\<bar>fl x - x\<bar> \<le> 2 powi (binade x - 53)"
proof -
  let ?u = "(2::real) powi (binade x - 52)"
  have u: "0 < ?u" by (rule two_powi_pos)
  have h: "(2::real) powi (binade x - 53) = ?u / 2"
    using power_int_add [of "2::real" "binade x - 53" 1] by simp
  have "fl x - x = (real_of_int (roundEven (x / ?u)) - x / ?u) * ?u"
    using u by (simp add: fl_pos_eq [OF assms] field_simps)
  hence "\<bar>fl x - x\<bar> = \<bar>real_of_int (roundEven (x / ?u)) - x / ?u\<bar> * ?u"
    using u by (simp add: abs_mult)
  also have "\<dots> \<le> 1 / 2 * ?u"
    using roundEven_error [of "x / ?u"] u by (intro mult_right_mono) simp_all
  finally show ?thesis by (simp add: h)
qed

lemma fl_rel_error:
  assumes "0 < x"
  shows "\<bar>fl x - x\<bar> \<le> x / 2 ^ 53"
proof -
  have "(2::real) powi (binade x - 53) = 2 powi binade x / 2 ^ 53"
    using power_int_add [of "2::real" "binade x" "- 53"] by (simp add: power_int_minus field_simps)
  also have "\<dots> \<le> x / 2 ^ 53"
    using binade_bounds [OF assms] by (simp add: divide_right_mono)
  finally show ?thesis using fl_error [OF assms] by linarith
qed

lemma fl_one: "fl 1 = 1"
  using fl_eqI [of 1 0 "2 ^ 52"] by (simp add: roundEven_def power_int_minus)

subsection \<open>The scale\<close>

lemma binade_neg:
  assumes "0 < x" and "x < 1"
  shows "binade x \<le> - 1"
proof (rule ccontr)
  assume "\<not> binade x \<le> - 1"
  hence "0 \<le> binade x" by simp
  hence "(2::real) powi 0 \<le> 2 powi binade x" by (rule two_powi_mono)
  with binade_bounds [OF assms(1)] assms(2) show False by simp
qed

lemma fl_quotient_ge_one:
  assumes "0 < n" and "n \<le> 800"
  shows "1 \<le> fl (800 / real n)"
proof -
  have "1 \<le> 800 / real n" using assms by simp
  hence "fl 1 \<le> fl (800 / real n)" by (intro fl_mono) simp_all
  thus ?thesis by (simp add: fl_one)
qed

lemma fl_quotient_less_one:
  assumes "800 < n"
  shows "fl (800 / real n) < 1"
proof -
  let ?x = "800 / real n"
  have x: "0 < ?x" using assms by simp
  have "801 \<le> real n" using assms by simp
  hence le: "?x \<le> 800 / 801" using assms by (simp add: field_simps)
  hence "?x < 1" by simp
  from binade_neg [OF x this] have "binade ?x - 53 \<le> - 54" by simp
  hence "(2::real) powi (binade ?x - 53) \<le> 2 powi (- 54)" by (rule two_powi_mono)
  with fl_error [OF x] have "fl ?x \<le> ?x + 2 powi (- 54)" by linarith
  also have "\<dots> \<le> 800 / 801 + 2 powi (- 54)" using le by simp
  also have "\<dots> < 1" by (simp add: power_int_minus)
  finally show ?thesis .
qed

lemma fl_quotient_antimono:
  assumes "0 < m" and "m \<le> n"
  shows "fl (800 / real n) \<le> fl (800 / real m)"
  using assms by (intro fl_mono) (simp_all add: frac_le)

lemma scaleFactor_eq:
  "scaleFactor h w = (if 800 < max w h then fl (800 / real (max w h)) else 1)"
proof -
  have one: "min (fl (800 / real n)) 1 = (if 800 < n then fl (800 / real n) else 1)"
    if "0 < n" for n
    using that fl_quotient_less_one [of n] fl_quotient_ge_one [of n] by (auto simp: min_def)
  show ?thesis
  proof (cases "h = 0")
    case True
    then show ?thesis
      by (cases "w = 0") (simp_all add: scaleFactor_def jsDiv_def maxDim_def one)
  next
    case h: False
    show ?thesis
    proof (cases "w = 0")
      case True
      then show ?thesis using h by (simp add: scaleFactor_def jsDiv_def maxDim_def one)
    next
      case w: False
      have m: "min (fl (800 / real h)) (fl (800 / real w)) = fl (800 / real (max w h))"
      proof (cases "w \<le> h")
        case True
        with fl_quotient_antimono [of w h] w show ?thesis by (simp add: max_def min_def)
      next
        case False
        with fl_quotient_antimono [of h w] h show ?thesis by (simp add: max_def min_def)
      qed
      have "0 < max w h" using h by simp
      from one [OF this] m show ?thesis
        using h w by (simp add: scaleFactor_def jsDiv_def maxDim_def)
    qed
  qed
qed

lemma scaleFactor_pos: "0 < scaleFactor h w"
  by (simp add: scaleFactor_eq fl_pos)

lemma scaleFactor_less_one: "800 < max w h \<Longrightarrow> scaleFactor h w < 1"
  using fl_quotient_less_one [of "max w h"] by (simp add: scaleFactor_eq)

lemma scaleFactor_one:
  assumes "max w h \<le> 800"
  shows "scaleFactor h w = 1"
proof -
  have "\<not> 800 < max w h" using assms by (simp add: not_less)
  thus ?thesis by (simp only: scaleFactor_eq if_False)
qed

lemma larger_side_near_cap:
  assumes "800 < n"
  shows "fl (real n * fl (800 / real n)) \<in> {800 - 2 powi (- 43), 800, 800 + 2 powi (- 43)}"
proof -
  let ?q = "800 / real n"
  let ?s = "fl ?q"
  let ?y = "real n * ?s"
  have n: "0 < real n" using assms by simp
  have q: "0 < ?q" using assms by simp
  have "\<bar>?s - ?q\<bar> \<le> ?q / 2 ^ 53" using q by (rule fl_rel_error)
  hence "real n * \<bar>?s - ?q\<bar> \<le> real n * (?q / 2 ^ 53)"
    using n by (intro mult_left_mono) simp_all
  moreover have "real n * \<bar>?s - ?q\<bar> = \<bar>?y - 800\<bar>"
  proof -
    have "?y - 800 = real n * (?s - ?q)" using n by (simp add: right_diff_distrib)
    thus ?thesis using n by (simp only: abs_mult)
  qed
  moreover have "real n * (?q / 2 ^ 53) = 800 / 2 ^ 53" using n by simp
  ultimately have d: "\<bar>?y - 800\<bar> \<le> 800 / 2 ^ 53" by simp
  moreover have "(800::real) / 2 ^ 53 \<le> 1" by simp
  ultimately have "799 \<le> ?y" "?y \<le> 801" by linarith+
  hence y: "0 < ?y" "2 powi 9 \<le> ?y" "?y < 2 powi (9 + 1)"
    by simp_all
  define c :: real where "c = 2 ^ 43"
  have c: "0 < c" "2 powi (9 - 52) = 1 / c" "2 powi (- 43) = 1 / c"
    by (simp_all add: c_def power_int_minus field_simps)
  have di: "?y / 2 powi (9 - 52) = ?y * c"
    unfolding c(2) by simp
  let ?k = "roundEven (?y * c)"
  have "fl ?y = of_int ?k * 2 powi (9 - 52)"
    using y by (rule fl_eqI) (simp only: di)
  hence f: "fl ?y = of_int ?k * (1 / c)"
    unfolding c(2) .
  have k: "\<bar>real_of_int ?k - ?y * c\<bar> \<le> 1 / 2"
    by (rule roundEven_error)
  have "\<bar>?y * c - 800 * c\<bar> = \<bar>?y - 800\<bar> * c"
    using c(1) by (simp add: left_diff_distrib [symmetric] abs_mult)
  also have "\<dots> \<le> 800 / 2 ^ 53 * c"
    using d c(1) by (intro mult_right_mono) simp_all
  also have "\<dots> \<le> 1" by (simp add: c_def)
  finally have "\<bar>?y * c - 800 * c\<bar> \<le> 1" .
  with k have "\<bar>real_of_int ?k - 800 * c\<bar> < 2" by linarith
  moreover have "800 * c = real_of_int (800 * 2 ^ 43)" by (simp add: c_def)
  ultimately have "\<bar>real_of_int (?k - 800 * 2 ^ 43)\<bar> < real_of_int 2" by simp
  hence "\<bar>?k - 800 * 2 ^ 43\<bar> < 2" by (simp only: of_int_abs [symmetric] of_int_less_iff)
  hence "?k = 800 * 2 ^ 43 - 1 \<or> ?k = 800 * 2 ^ 43 \<or> ?k = 800 * 2 ^ 43 + 1" by auto
  hence "real_of_int ?k = 800 * c - 1 \<or> real_of_int ?k = 800 * c \<or>
      real_of_int ?k = 800 * c + 1"
    by (auto simp: c_def)
  hence "fl ?y = 800 - 1 / c \<or> fl ?y = 800 \<or> fl ?y = 800 + 1 / c"
    using c(1) by (auto simp: f field_simps)
  thus ?thesis unfolding c(3) by blast
qed

lemma larger_side:
  assumes "0 < s"
  shows "max (fl (real w * s)) (fl (real h * s)) = fl (real (max w h) * s)"
proof (cases "w \<le> h")
  case True
  hence "fl (real w * s) \<le> fl (real h * s)" using assms by (intro fl_mono) simp_all
  with True show ?thesis by (simp add: max_def)
next
  case False
  hence "fl (real h * s) \<le> fl (real w * s)" using assms by (intro fl_mono) simp_all
  with False show ?thesis by (simp add: max_def)
qed

lemma scale_4624: "scaleFactor 3468 4624 = 389584742852119 / 2251799813685248"
proof -
  have "fl (800 / 4624) = of_int 6233355885633904 * 2 powi (- 3 - 52)"
    by (rule fl_eqI) (simp_all add: power_int_minus roundEven_def)
  thus ?thesis by (simp add: scaleFactor_eq power_int_minus)
qed

lemma side_4624: "fl (4624 * scaleFactor 3468 4624) = 800 - 1 / 8796093022208"
proof -
  have "fl (4624 * (389584742852119 / 2251799813685248)) =
      of_int 7036874417766399 * 2 powi (9 - 52)"
    by (rule fl_eqI) (simp_all add: power_int_minus roundEven_def)
  thus ?thesis by (simp add: scale_4624 power_int_minus)
qed

lemma side_3468: "fl (3468 * scaleFactor 3468 4624) = 600"
proof -
  have "fl (3468 * (389584742852119 / 2251799813685248)) =
      of_int 5277655813324800 * 2 powi (9 - 52)"
    by (rule fl_eqI) (simp_all add: power_int_minus roundEven_def)
  thus ?thesis by (simp add: scale_4624 power_int_minus)
qed

lemma scale_1000: "scaleFactor 1000 1000 = 3602879701896397 / 4503599627370496"
proof -
  have "fl (800 / 1000) = of_int 7205759403792794 * 2 powi (- 1 - 52)"
    by (rule fl_eqI) (simp_all add: power_int_minus roundEven_def)
  thus ?thesis by (simp add: scaleFactor_eq power_int_minus)
qed

lemma scale_1000_less: "scaleFactor 1000 1000 < 1"
  by (simp add: scale_1000)

lemma side_1000: "fl (1000 * scaleFactor 1000 1000) = 800"
proof -
  have "fl (1000 * (3602879701896397 / 4503599627370496)) =
      of_int 7036874417766400 * 2 powi (9 - 52)"
    by (rule fl_eqI) (simp_all add: power_int_minus roundEven_def)
  thus ?thesis by (simp add: scale_1000 power_int_minus)
qed

lemma corner_1000:
  "fl (160 / scaleFactor 1000 1000) = 200" "fl (240 / scaleFactor 1000 1000) = 300"
  "fl (640 / scaleFactor 1000 1000) = 800" "fl (560 / scaleFactor 1000 1000) = 700"
proof -
  have "fl (160 / (3602879701896397 / 4503599627370496)) =
      of_int 7036874417766400 * 2 powi (7 - 52)"
    by (rule fl_eqI) (simp_all add: power_int_minus roundEven_def)
  thus "fl (160 / scaleFactor 1000 1000) = 200"
    by (simp add: scale_1000 power_int_minus)
  have "fl (240 / (3602879701896397 / 4503599627370496)) =
      of_int 5277655813324800 * 2 powi (8 - 52)"
    by (rule fl_eqI) (simp_all add: power_int_minus roundEven_def)
  thus "fl (240 / scaleFactor 1000 1000) = 300"
    by (simp add: scale_1000 power_int_minus)
  have "fl (640 / (3602879701896397 / 4503599627370496)) =
      of_int 7036874417766400 * 2 powi (9 - 52)"
    by (rule fl_eqI) (simp_all add: power_int_minus roundEven_def)
  thus "fl (640 / scaleFactor 1000 1000) = 800"
    by (simp add: scale_1000 power_int_minus)
  have "fl (560 / (3602879701896397 / 4503599627370496)) =
      of_int 6157265115545600 * 2 powi (9 - 52)"
    by (rule fl_eqI) (simp_all add: power_int_minus roundEven_def)
  thus "fl (560 / scaleFactor 1000 1000) = 700"
    by (simp add: scale_1000 power_int_minus)
qed

text \<open>
  C6, as stated: above 800 the scale is \<open>800 / max w h\<close>, so that the larger side of the
  downscaled copy is 800. For a frame of 4624 by 3468 pixels the scale is the double
  nearest to \<open>800 / 4624\<close>, and the larger side of the size the code requests is the
  double below 800, 799.9999999999999; an engine that truncates the size makes a copy
  of 799 by 600.
\<close>

theorem downscaled_side_below_cap:
  "800 < max (4624::nat) 3468 \<and>
   scaleFactor 3468 4624 = 389584742852119 / 2251799813685248 \<and>
   max (fl (real (4624::nat) * scaleFactor 3468 4624))
     (fl (real (3468::nat) * scaleFactor 3468 4624)) = 800 - 1 / 8796093022208 \<and>
   max (fl (real (4624::nat) * scaleFactor 3468 4624))
     (fl (real (3468::nat) * scaleFactor 3468 4624)) \<noteq> 800 \<and>
   downscale (demoEngine None []) wideFrame (scaleFactor (rows wideFrame) (cols wideFrame))
     \<lparr>canvasNow = demoCanvas, live = {}\<rparr> =
     (\<lparr>canvasNow = demoCanvas, live = {}\<rparr>, Inr \<lparr>rows = 600, cols = 799, mdata = []\<rparr>)"
proof -
  have s: "scaleFactor 3468 4624 < 1"
    by (simp add: scale_4624)
  have "downscale (demoEngine None []) wideFrame (scaleFactor 3468 4624)
     \<lparr>canvasNow = demoCanvas, live = {}\<rparr> =
     (\<lparr>canvasNow = demoCanvas, live = {}\<rparr>, Inr \<lparr>rows = 600, cols = 799, mdata = []\<rparr>)"
    using s
    by (simp add: downscale_def wideFrame_def side_4624 side_3468 demoEngine_def demoCall_def
        call_def ret_def)
  thus ?thesis
    by (simp add: side_4624 side_3468 wideFrame_def) (simp add: scale_4624)
qed

text \<open>
  C6, amended. For a frame of width \<open>w\<close> and height \<open>h\<close> the scale is the double nearest
  to \<open>800 / max w h\<close> when \<open>max w h\<close> exceeds 800, within one part in \<open>2 ^ 53\<close> of the
  quotient, and 1 otherwise; it is positive. Above 800 the frame is resized, and the larger
  side of the size requested is 800 or one of the two doubles next to 800; otherwise the
  frame is copied. Each detected coordinate is divided by the scale, and the quotient
  rounded.
\<close>

theorem scaleFactor_rounded:
  "scaleFactor h w = (if 800 < max w h then fl (800 / real (max w h)) else 1) \<and>
   0 < scaleFactor h w \<and>
   (800 < max w h \<longrightarrow>
      \<bar>scaleFactor h w - 800 / real (max w h)\<bar> \<le> 800 / real (max w h) / 2 ^ 53 \<and>
      scaleFactor h w < 1 \<and>
      downscale E src (scaleFactor h w) =
        call AtResize
          (resize E src
             (fl (real (cols src) * scaleFactor h w), fl (real (rows src) * scaleFactor h w))) \<and>
      max (fl (real w * scaleFactor h w)) (fl (real h * scaleFactor h w)) \<in>
        {800 - 2 powi (- 43), 800, 800 + 2 powi (- 43)}) \<and>
   (max w h \<le> 800 \<longrightarrow> downscale E src (scaleFactor h w) = call AtCopyTo (copyTo E src)) \<and>
   rescalePoints (scaleFactor h w) ps =
     map (\<lambda>p. \<lparr>px = fl (px p / scaleFactor h w), py = fl (py p / scaleFactor h w)\<rparr>) ps"
proof -
  have big: "\<bar>scaleFactor h w - 800 / real (max w h)\<bar> \<le> 800 / real (max w h) / 2 ^ 53 \<and>
      scaleFactor h w < 1 \<and>
      downscale E src (scaleFactor h w) =
        call AtResize
          (resize E src
             (fl (real (cols src) * scaleFactor h w), fl (real (rows src) * scaleFactor h w))) \<and>
      max (fl (real w * scaleFactor h w)) (fl (real h * scaleFactor h w)) \<in>
        {800 - 2 powi (- 43), 800, 800 + 2 powi (- 43)}"
    if b: "800 < max w h"
  proof -
    have e: "scaleFactor h w = fl (800 / real (max w h))"
      using b by (simp add: scaleFactor_eq)
    have q: "0 < 800 / real (max w h)"
      using b by simp
    have 1: "\<bar>scaleFactor h w - 800 / real (max w h)\<bar> \<le> 800 / real (max w h) / 2 ^ 53"
      unfolding e using q by (rule fl_rel_error)
    have 2: "scaleFactor h w < 1"
      using b by (rule scaleFactor_less_one)
    hence 3: "downscale E src (scaleFactor h w) =
        call AtResize
          (resize E src
             (fl (real (cols src) * scaleFactor h w), fl (real (rows src) * scaleFactor h w)))"
      by (simp add: downscale_def)
    have "max (fl (real w * scaleFactor h w)) (fl (real h * scaleFactor h w)) =
        fl (real (max w h) * scaleFactor h w)"
      using scaleFactor_pos by (rule larger_side)
    hence 4: "max (fl (real w * scaleFactor h w)) (fl (real h * scaleFactor h w)) \<in>
        {800 - 2 powi (- 43), 800, 800 + 2 powi (- 43)}"
      using larger_side_near_cap [OF b] by (simp only: e)
    from 1 2 3 4 show ?thesis by blast
  qed
  have small: "downscale E src (scaleFactor h w) = call AtCopyTo (copyTo E src)"
    if "max w h \<le> 800"
    using scaleFactor_one [OF that] by (simp add: downscale_def)
  have r: "rescalePoints (scaleFactor h w) ps =
     map (\<lambda>p. \<lparr>px = fl (px p / scaleFactor h w), py = fl (py p / scaleFactor h w)\<rparr>) ps"
    by (simp add: rescalePoints_def)
  show ?thesis
    using big small r scaleFactor_eq [of h w] scaleFactor_pos [of h w] by blast
qed

theorem scaleFactor_rounded_witness:
  "800 < max (1000::nat) 1000 \<and>
   scaleFactor 1000 1000 = 3602879701896397 / 4503599627370496 \<and>
   \<bar>scaleFactor 1000 1000 - 800 / real (max (1000::nat) 1000)\<bar> \<le>
     800 / real (max (1000::nat) 1000) / 2 ^ 53 \<and>
   max (fl (real (1000::nat) * scaleFactor 1000 1000))
     (fl (real (1000::nat) * scaleFactor 1000 1000)) = 800 \<and>
   max (800::nat) 600 \<le> 800 \<and> scaleFactor 600 800 = 1 \<and>
   downscale (demoEngine None []) wideFrame (scaleFactor 600 800) =
     call AtCopyTo (copyTo (demoEngine None []) wideFrame) \<and>
   rescalePoints (scaleFactor 1000 1000) [\<lparr>px = 160, py = 240\<rparr>] = [\<lparr>px = 200, py = 300\<rparr>]"
proof -
  have a: "800 < max (1000::nat) 1000" "max (800::nat) 600 \<le> 800"
    by simp_all
  have b: "\<bar>scaleFactor 1000 1000 - 800 / real (max (1000::nat) 1000)\<bar> \<le>
      800 / real (max (1000::nat) 1000) / 2 ^ 53"
    using a(1) scaleFactor_rounded [of 1000 1000 E src ps] by blast
  have c: "scaleFactor 600 800 = 1"
    using scaleFactor_rounded [of 600 800 E src ps] by simp
  have d: "downscale (demoEngine None []) wideFrame (scaleFactor 600 800) =
      call AtCopyTo (copyTo (demoEngine None []) wideFrame)"
    using a(2) scaleFactor_rounded [of 600 800 "demoEngine None []" wideFrame ps] by blast
  have e: "rescalePoints (scaleFactor 1000 1000) [\<lparr>px = 160, py = 240\<rparr>] =
      [\<lparr>px = 200, py = 300\<rparr>]"
    by (simp add: rescalePoints_def corner_1000)
  show ?thesis
    using a b c d e by (simp add: side_1000) (simp add: scale_1000)
qed

section \<open>The loop over the contours\<close>







section \<open>The pipeline\<close>

subsection \<open>Statements and the canvas\<close>

lemma bnd_Inr_iff:
  "bnd m f s = (s', Inr v) \<longleftrightarrow> (\<exists>s1 v1. m s = (s1, Inr v1) \<and> f v1 s1 = (s', Inr v))"
  by (auto simp: bnd_def split: prod.splits sum.splits)

lemma bnd_Inl_iff:
  "bnd m f s = (s', Inl e) \<longleftrightarrow>
     m s = (s', Inl e) \<or> (\<exists>s1 v1. m s = (s1, Inr v1) \<and> f v1 s1 = (s', Inl e))"
  by (auto simp: bnd_def split: prod.splits sum.splits)

lemma call_Inr_iff: "call st r s = (s', Inr v) \<longleftrightarrow> r = Some v \<and> s' = s"
  by (auto simp: call_def ret_def throw_def split: option.splits)

lemma call_Inl_iff: "call st r s = (s', Inl e) \<longleftrightarrow> r = None \<and> s' = s \<and> e = st"
  by (auto simp: call_def ret_def throw_def split: option.splits)

lemma keepsCanvasD: "keepsCanvas m \<Longrightarrow> m s = (s', r) \<Longrightarrow> canvasNow s' = canvasNow s"
  by (auto simp: keepsCanvas_def)

lemma keepsCanvas_ret: "keepsCanvas (ret v)"
  by (simp add: keepsCanvas_def ret_def)

lemma keepsCanvas_throw: "keepsCanvas (throw st)"
  by (simp add: keepsCanvas_def throw_def)

lemma keepsCanvas_call: "keepsCanvas (call st r)"
  by (cases r) (simp_all add: call_def keepsCanvas_ret keepsCanvas_throw)

lemma keepsCanvas_alloc: "keepsCanvas (alloc b)"
  by (auto simp: keepsCanvas_def alloc_def)

lemma keepsCanvas_free: "keepsCanvas (free b)"
  by (auto simp: keepsCanvas_def free_def)

lemma keepsCanvas_bnd:
  assumes "keepsCanvas m" and "\<And>v. keepsCanvas (f v)"
  shows "keepsCanvas (bnd m f)"
  unfolding keepsCanvas_def
proof (intro allI impI)
  fix s s' r
  assume b: "bnd m f s = (s', r)"
  obtain s1 r1 where m: "m s = (s1, r1)" by (cases "m s")
  have c1: "canvasNow s1 = canvasNow s" using assms(1) m by (rule keepsCanvasD)
  show "canvasNow s' = canvasNow s"
  proof (cases r1)
    case (Inl e)
    with b m have "s' = s1" by (simp add: bnd_def)
    with c1 show ?thesis by simp
  next
    case (Inr v)
    with b m have "f v s1 = (s', r)" by (simp add: bnd_def)
    with assms(2) have "canvasNow s' = canvasNow s1" by (rule keepsCanvasD)
    with c1 show ?thesis by simp
  qed
qed

lemma keepsCanvas_if:
  "keepsCanvas m \<Longrightarrow> keepsCanvas n \<Longrightarrow> keepsCanvas (if b then m else n)"
  by simp

lemmas keepsCanvas_intros =
  keepsCanvas_bnd keepsCanvas_if keepsCanvas_ret keepsCanvas_throw keepsCanvas_call
  keepsCanvas_alloc keepsCanvas_free

lemma keepsCanvas_imreadCanvas: "keepsCanvas (imreadCanvas E)"
  by (auto simp: keepsCanvas_def imreadCanvas_def dest: keepsCanvasD [OF keepsCanvas_call])

lemma keepsCanvas_toDataURLCanvas: "keepsCanvas (toDataURLCanvas E)"
  by (auto simp: keepsCanvas_def toDataURLCanvas_def dest: keepsCanvasD [OF keepsCanvas_call])

lemma keepsCanvas_scanContour: "keepsCanvas (scanContour E c acc)"
  unfolding scanContour_def by (intro keepsCanvas_intros)

lemma keepsCanvas_scanContours: "keepsCanvas (scanContours E cs acc)"
  by (induction cs arbitrary: acc) (simp_all add: keepsCanvas_intros keepsCanvas_scanContour)

lemma keepsCanvas_downscale: "keepsCanvas (downscale E src scale)"
  unfolding downscale_def by (intro keepsCanvas_intros)

lemma keepsCanvas_preprocess: "keepsCanvas (preprocess E smallSrc)"
  unfolding preprocess_def by (intro keepsCanvas_intros)

lemma keepsCanvas_findLargestQuad: "keepsCanvas (findLargestQuad E edges)"
  unfolding findLargestQuad_def by (intro keepsCanvas_intros keepsCanvas_scanContours)

lemma keepsCanvas_cleanup: "keepsCanvas cleanup"
  unfolding cleanup_def by (intro keepsCanvas_intros)

lemma scanBody_fallback:
  assumes "scanBody E s0 = (s', Inr (False, url))"
  shows "\<exists>src. imread E (canvasNow s0) = Some src \<and>
           imshow E (canvasNow s0) src = Some (canvasNow s') \<and>
           toDataURL E (canvasNow s') = Some url"
proof -
  from assms obtain src s1 scale smallSrc s2 edges s3 best s4 s5 s6 where
    rd: "imreadCanvas E s0 = (s1, Inr src)" and
    ds: "downscale E src scale (s1\<lparr>live := insert SmallSrc (insert Dst (insert Src (live s1)))\<rparr>)
           = (s2, Inr smallSrc)" and
    pp: "preprocess E smallSrc s2 = (s3, Inr edges)" and
    fq: "findLargestQuad E edges s3 = (s4, Inr best)" and
    out: "(case snd best of Some maxContourData \<Rightarrow> rectify E src scale maxContourData
          | None \<Rightarrow> imshowCanvas E src) s4 = (s5, Inr ())" and
    cl: "cleanup s5 = (s6, Inr ())" and
    enc: "toDataURLCanvas E s6 = (s', Inr url)" and
    nf: "snd best = None"
    unfolding scanBody_def by (auto simp: bnd_Inr_iff ret_def alloc_def)
  from rd have 1: "imread E (canvasNow s0) = Some src" "s1 = s0"
    by (simp_all add: imreadCanvas_def call_Inr_iff)
  have 2: "canvasNow s2 = canvasNow s0"
    using keepsCanvasD [OF keepsCanvas_downscale ds] 1 by simp
  have 3: "canvasNow s3 = canvasNow s2"
    using keepsCanvas_preprocess pp by (rule keepsCanvasD)
  have 4: "canvasNow s4 = canvasNow s3"
    using keepsCanvas_findLargestQuad fq by (rule keepsCanvasD)
  from out nf have "imshowCanvas E src s4 = (s5, Inr ())"
    by simp
  hence 5: "imshow E (canvasNow s4) src = Some (canvasNow s5)"
    by (auto simp: imshowCanvas_def split: option.splits)
  have 6: "canvasNow s6 = canvasNow s5"
    using keepsCanvas_cleanup cl by (rule keepsCanvasD)
  from enc have 7: "toDataURL E (canvasNow s6) = Some url" "s' = s6"
    by (simp_all add: toDataURLCanvas_def call_Inr_iff)
  show ?thesis using 1 2 3 4 5 6 7 by simp
qed

lemma runScan_Fallback_iff:
  "snd (runScan E canvas) = Fallback url \<longleftrightarrow>
     cvLoaded E \<and> (\<exists>s'. scanBody E \<lparr>canvasNow = canvas, live = {}\<rparr> = (s', Inr (False, url)))"
  by (auto simp: runScan_def Let_def split: prod.splits sum.splits if_splits)


lemma yields_ret: "P v \<Longrightarrow> yields (ret v) P"
  by (simp add: yields_def ret_def)

lemma yields_call: "r = Some v \<Longrightarrow> P v \<Longrightarrow> yields (call st r) P"
  by (simp add: yields_def call_def ret_def)

lemma yields_alloc: "yields (alloc b) (\<lambda>_. True)"
  by (simp add: yields_def alloc_def)

lemma yields_free: "yields (free b) (\<lambda>_. True)"
  by (simp add: yields_def free_def)

lemma yields_bnd:
  assumes "yields m P" and "\<And>v. P v \<Longrightarrow> yields (f v) Q"
  shows "yields (bnd m f) Q"
  unfolding yields_def
proof
  fix s
  from assms(1) obtain s1 v1 where m: "m s = (s1, Inr v1)" "P v1"
    unfolding yields_def by blast
  from assms(2) [OF m(2)] obtain s2 v2 where "f v1 s1 = (s2, Inr v2)" "Q v2"
    unfolding yields_def by blast
  with m show "\<exists>s' v. bnd m f s = (s', Inr v) \<and> Q v"
    by (simp add: bnd_def)
qed

lemma yields_weaken: "yields m P \<Longrightarrow> (\<And>v. P v \<Longrightarrow> Q v) \<Longrightarrow> yields m Q"
  unfolding yields_def by blast

lemma yields_call_total: "r \<noteq> None \<Longrightarrow> yields (call st r) (\<lambda>_. True)"
  by (cases r) (simp_all add: yields_call)

lemma neverThrowsD:
  assumes "neverThrows E"
  shows "imread E c \<noteq> None" "resize E m d \<noteq> None" "copyTo E m \<noteq> None"
    "cvtColor E m \<noteq> None" "GaussianBlur E m k \<noteq> None" "Canny E m lo hi \<noteq> None"
    "findContours E m \<noteq> None" "contourArea E ct \<noteq> None" "arcLength E ct \<noteq> None"
    "approxPolyDP E ct eps \<noteq> None" "isContourConvex E ct \<noteq> None"
    "matFromArray E xs \<noteq> None" "getPerspectiveTransform E a b \<noteq> None"
    "warpPerspective E m t d \<noteq> None" "imshow E c m \<noteq> None" "toDataURL E c \<noteq> None"
  using assms unfolding neverThrows_def
  by - (elim conjE, (erule allE)+, assumption)+

lemma length_extractPoints: "length (extractPoints approx) = 4"
  by (simp add: extractPoints_def)

lemma yields_if:
  "(b \<Longrightarrow> yields m P) \<Longrightarrow> (\<not> b \<Longrightarrow> yields n P) \<Longrightarrow> yields (if b then m else n) P"
  by simp

lemma yields_scanContour:
  assumes "neverThrows E" and "fourCorners acc"
  shows "yields (scanContour E c acc) fourCorners"
  unfolding scanContour_def
  apply (rule yields_bnd [OF yields_call_total [OF neverThrowsD(8) [OF assms(1)]]])
  apply (rule yields_if)
   apply (rule yields_ret, rule assms(2))
  apply (rule yields_bnd [OF yields_call_total [OF neverThrowsD(9) [OF assms(1)]]])
  apply (rule yields_bnd [OF yields_alloc])
  apply (rule yields_bnd [OF yields_call_total [OF neverThrowsD(10) [OF assms(1)]]])
  apply (rule yields_bnd [where P = "\<lambda>_. True"])
   apply (rule yields_if)
    apply (rule yields_call_total [OF neverThrowsD(11) [OF assms(1)]])
   apply (rule yields_ret, simp)
  apply (rule yields_bnd [where P = fourCorners])
   apply (rule yields_ret)
  using assms(2) apply (simp add: fourCorners_def length_extractPoints)
  apply (rule yields_bnd [OF yields_free])
  apply (rule yields_ret, assumption)
  done

lemma yields_scanContours:
  assumes "neverThrows E"
  shows "fourCorners acc \<Longrightarrow> yields (scanContours E cs acc) fourCorners"
proof (induction cs arbitrary: acc)
  case Nil
  then show ?case by (simp add: yields_ret)
next
  case (Cons c cs)
  show ?case
    unfolding scanContours.simps
    by (rule yields_bnd [OF yields_scanContour [OF assms Cons.prems]]) (rule Cons.IH)
qed

lemma yields_downscale: "neverThrows E \<Longrightarrow> yields (downscale E src scale) (\<lambda>_. True)"
  by (simp add: downscale_def neverThrowsD yields_call_total)

lemma yields_preprocess:
  assumes "neverThrows E"
  shows "yields (preprocess E smallSrc) (\<lambda>_. True)"
  unfolding preprocess_def
  using assms
  by (intro yields_bnd [where P = "\<lambda>_. True"] yields_alloc yields_call_total neverThrowsD)

lemma yields_findLargestQuad:
  assumes "neverThrows E"
  shows "yields (findLargestQuad E edges) fourCorners"
  unfolding findLargestQuad_def
proof (intro yields_bnd [where P = "\<lambda>_. True"] yields_alloc yields_call_total)
  show "findContours E edges \<noteq> None" using assms by (rule neverThrowsD)
  show "yields (scanContours E v (0, None)) fourCorners" for v
    using assms by (rule yields_scanContours) (simp add: fourCorners_def)
qed

lemma yields_imshowCanvas: "neverThrows E \<Longrightarrow> yields (imshowCanvas E m) (\<lambda>_. True)"
  by (auto simp: yields_def imshowCanvas_def neverThrowsD split: option.splits)

lemma yields_imreadCanvas: "neverThrows E \<Longrightarrow> yields (imreadCanvas E) (\<lambda>_. True)"
  by (auto simp: yields_def imreadCanvas_def neverThrowsD call_def ret_def split: option.splits)

lemma yields_toDataURLCanvas: "neverThrows E \<Longrightarrow> yields (toDataURLCanvas E) (\<lambda>_. True)"
  by (auto simp: yields_def toDataURLCanvas_def neverThrowsD call_def ret_def
      split: option.splits)

lemma yields_cleanup: "yields cleanup (\<lambda>_. True)"
  unfolding cleanup_def by (intro yields_bnd [where P = "\<lambda>_. True"] yields_free)

lemma orderPoints_four:
  assumes "length ps = 4"
  shows "\<exists>a b c d. orderPoints ps = [Some a, Some b, Some c, Some d]"
proof -
  from sortedBySum4 [OF assms] obtain a b c d where "jsSortBy coordSum ps = [a, b, c, d]"
    by blast
  from orderPoints_sorted4 [OF this] show ?thesis by blast
qed

lemma yields_rectify:
  assumes "neverThrows E" and "length d = 4"
  shows "yields (rectify E src scale d) (\<lambda>_. True)"
proof -
  have "length (rescalePoints scale d) = 4"
    using assms(2) by (simp add: rescalePoints_def)
  from orderPoints_four [OF this] obtain a b c e where
    o: "orderPoints (rescalePoints scale d) = [Some a, Some b, Some c, Some e]" by blast
  show ?thesis
    unfolding rectify_def Let_def o
    using assms(1)
    by (simp add: split_def)
      (intro yields_bnd [where P = "\<lambda>_. True"] yields_alloc yields_free yields_call_total
        yields_imshowCanvas neverThrowsD)
qed

lemma yields_scanBody:
  assumes "neverThrows E"
  shows "yields (scanBody E) (\<lambda>_. True)"
  unfolding scanBody_def
  apply (rule yields_bnd [OF yields_imreadCanvas [OF assms]])
  apply (rule yields_bnd [OF yields_alloc])
  apply (rule yields_bnd [OF yields_alloc])
  apply (rule yields_bnd [OF yields_alloc])
  apply (rule yields_bnd [OF yields_ret [where P = "\<lambda>_. True"]], simp)
  apply (rule yields_bnd [OF yields_downscale [OF assms]])
  apply (rule yields_bnd [OF yields_preprocess [OF assms]])
  apply (rule yields_bnd [OF yields_findLargestQuad [OF assms]])
  subgoal for src _ _ _ scale smallSrc edges best
    apply (rule yields_bnd [where P = "\<lambda>_. True"])
     apply (cases "snd best")
      apply (simp add: yields_imshowCanvas [OF assms])
     apply (simp add: fourCorners_def yields_rectify [OF assms])
    apply (rule yields_bnd [OF yields_cleanup])
    apply (rule yields_bnd [OF yields_toDataURLCanvas [OF assms]])
    apply (rule yields_ret, simp)
    done
  done

lemma earlyThrowKeepsD:
  "earlyThrowKeeps m \<Longrightarrow> m s = (s', Inl st) \<Longrightarrow> st \<noteq> AtImshow \<Longrightarrow> st \<noteq> AtToDataURL \<Longrightarrow>
   canvasNow s' = canvasNow s"
  by (auto simp: earlyThrowKeeps_def)

lemma keepsCanvas_early: "keepsCanvas m \<Longrightarrow> earlyThrowKeeps m"
  by (auto simp: earlyThrowKeeps_def keepsCanvas_def)

lemma throwsLate_early: "throwsLate m \<Longrightarrow> earlyThrowKeeps m"
  by (auto simp: earlyThrowKeeps_def throwsLate_def)

lemma earlyThrowKeeps_bnd:
  assumes "keepsCanvas m" and "\<And>v. earlyThrowKeeps (f v)"
  shows "earlyThrowKeeps (bnd m f)"
  unfolding earlyThrowKeeps_def
proof (intro allI impI)
  fix s s' st
  assume "bnd m f s = (s', Inl st)"
  then consider "m s = (s', Inl st)" | s1 v1 where "m s = (s1, Inr v1)" "f v1 s1 = (s', Inl st)"
    by (auto simp: bnd_Inl_iff)
  then show "st = AtImshow \<or> st = AtToDataURL \<or> canvasNow s' = canvasNow s"
  proof cases
    case 1
    then show ?thesis using assms(1) by (auto dest: keepsCanvasD)
  next
    case 2
    have "canvasNow s1 = canvasNow s" using assms(1) 2(1) by (rule keepsCanvasD)
    moreover have "st = AtImshow \<or> st = AtToDataURL \<or> canvasNow s' = canvasNow s1"
      using assms(2) 2(2) by (auto simp: earlyThrowKeeps_def)
    ultimately show ?thesis by auto
  qed
qed

lemma earlyThrowKeeps_bnd_late:
  assumes "earlyThrowKeeps m" and "\<And>v. throwsLate (f v)"
  shows "earlyThrowKeeps (bnd m f)"
  unfolding earlyThrowKeeps_def
proof (intro allI impI)
  fix s s' st
  assume "bnd m f s = (s', Inl st)"
  then consider "m s = (s', Inl st)" | s1 v1 where "m s = (s1, Inr v1)" "f v1 s1 = (s', Inl st)"
    by (auto simp: bnd_Inl_iff)
  then show "st = AtImshow \<or> st = AtToDataURL \<or> canvasNow s' = canvasNow s"
  proof cases
    case 1
    then show ?thesis using assms(1) by (auto simp: earlyThrowKeeps_def)
  next
    case 2
    then show ?thesis using assms(2) by (auto simp: throwsLate_def)
  qed
qed

lemma throwsLate_bnd:
  assumes "throwsLate m" and "\<And>v. throwsLate (f v)"
  shows "throwsLate (bnd m f)"
  unfolding throwsLate_def
proof (intro allI impI)
  fix s s' st
  assume "bnd m f s = (s', Inl st)"
  then consider "m s = (s', Inl st)" | s1 v1 where "m s = (s1, Inr v1)" "f v1 s1 = (s', Inl st)"
    by (auto simp: bnd_Inl_iff)
  then show "st = AtImshow \<or> st = AtToDataURL"
  proof cases
    case 1
    then show ?thesis using assms(1) by (auto simp: throwsLate_def)
  next
    case 2
    then show ?thesis using assms(2) by (auto simp: throwsLate_def)
  qed
qed

lemma throwsLate_ret: "throwsLate (ret v)"
  by (simp add: throwsLate_def ret_def)

lemma throwsLate_alloc: "throwsLate (alloc b)"
  by (simp add: throwsLate_def alloc_def)

lemma throwsLate_free: "throwsLate (free b)"
  by (simp add: throwsLate_def free_def)

lemma throwsLate_imshowCanvas: "throwsLate (imshowCanvas E m)"
  by (auto simp: throwsLate_def imshowCanvas_def split: option.splits)

lemma throwsLate_toDataURLCanvas: "throwsLate (toDataURLCanvas E)"
  by (auto simp: throwsLate_def toDataURLCanvas_def call_Inl_iff)

lemma throwsLate_cleanup: "throwsLate cleanup"
  unfolding cleanup_def by (intro throwsLate_bnd throwsLate_free)

lemma earlyThrowKeeps_rectify: "earlyThrowKeeps (rectify E src scale d)"
  unfolding rectify_def Let_def split_def
  apply (simp split: list.split option.split)
  apply (intro conjI impI allI keepsCanvas_early [OF keepsCanvas_throw])
  apply (rule earlyThrowKeeps_bnd [OF keepsCanvas_call] earlyThrowKeeps_bnd [OF keepsCanvas_alloc])+
  apply (rule throwsLate_early)
  apply (intro throwsLate_bnd throwsLate_imshowCanvas throwsLate_free)
  done

lemma earlyThrowKeeps_scanBody: "earlyThrowKeeps (scanBody E)"
  unfolding scanBody_def
  apply (rule earlyThrowKeeps_bnd [OF keepsCanvas_imreadCanvas])
  apply (rule earlyThrowKeeps_bnd [OF keepsCanvas_alloc])+
  apply (rule earlyThrowKeeps_bnd [OF keepsCanvas_ret])
  apply (rule earlyThrowKeeps_bnd [OF keepsCanvas_downscale])
  apply (rule earlyThrowKeeps_bnd [OF keepsCanvas_preprocess])
  apply (rule earlyThrowKeeps_bnd [OF keepsCanvas_findLargestQuad])
  apply (rule earlyThrowKeeps_bnd_late)
   apply (simp split: option.split)
   apply (intro conjI impI allI earlyThrowKeeps_rectify throwsLate_early throwsLate_imshowCanvas)
  apply (intro throwsLate_bnd throwsLate_cleanup throwsLate_toDataURLCanvas throwsLate_ret)
  done

lemma processDocumentScan_None_iff:
  "processDocumentScan E canvas = None \<longleftrightarrow>
     \<not> cvLoaded E \<or> (\<exists>st. snd (scanBody E \<lparr>canvasNow = canvas, live = {}\<rparr>) = Inl st)"
  by (auto simp: processDocumentScan_def runScan_def Let_def
      split: prod.splits sum.splits outcome.splits if_splits)


subsection \<open>Runs of the small engine\<close>

lemmas scan_eval =
  runScan_def scanBody_def bnd_def ret_def call_def throw_def alloc_def free_def
  imreadCanvas_def imshowCanvas_def toDataURLCanvas_def downscale_def preprocess_def
  findLargestQuad_def scanContour_def rectify_def cleanup_def demoEngine_def demoCall_def
  demoCanvas_def side_1000 corner_1000 scale_1000_less insert_Diff_if demoContour_def
  smallContour_def polygonArea_def extractPoints_def rescalePoints_def orderPoints_eval
  outputSize_def hypot_def upt_rec

lemma run_nothing_found:
  "runScan (demoEngine None [smallContour]) demoCanvas =
     (\<lparr>canvasNow = demoCanvas, live = {}\<rparr>, Fallback ''data:image/jpeg'')"
  by (simp add: scan_eval)

lemma run_document_found:
  "runScan (demoEngine None [demoContour]) demoCanvas =
     (\<lparr>canvasNow = \<lparr>cwidth = 600, cheight = 400, cpixels = []\<rparr>, live = {}\<rparr>,
      Rectified ''data:image/jpeg'')"
  by (simp add: scan_eval)

lemma run_Canny_throws:
  "runScan (demoEngine (Some AtCanny) []) demoCanvas =
     (\<lparr>canvasNow = demoCanvas, live = {Edges, Blurred, Gray, SmallSrc, Dst, Src}\<rparr>,
      Failed AtCanny)"
  by (simp add: scan_eval)

lemma run_warp_throws:
  "runScan (demoEngine (Some AtWarpPerspective) [demoContour]) demoCanvas =
     (\<lparr>canvasNow = demoCanvas,
       live = {MTransform, DstTri, SrcTri, Hierarchy, Contours, Edges, Blurred, Gray, SmallSrc,
               Dst, Src}\<rparr>,
      Failed AtWarpPerspective)"
  by (simp add: scan_eval)

lemma run_toDataURL_throws:
  "runScan (demoEngine (Some AtToDataURL) [demoContour]) demoCanvas =
     (\<lparr>canvasNow = \<lparr>cwidth = 600, cheight = 400, cpixels = []\<rparr>, live = {}\<rparr>,
      Failed AtToDataURL)"
  by (simp add: scan_eval)

lemma neverThrows_demoEngine: "neverThrows (demoEngine None cs)"
  by (simp add: neverThrows_def demoEngine_def demoCall_def)

subsection \<open>Fallback\<close>

text \<open>
  C5. When the call ends on the fallback path (no quadrilateral was kept and nothing
  threw), the canvas holds what \<^verbatim>\<open>imshow\<close> makes of the matrix read from the input
  canvas at full resolution, and the result is the JPEG encoding of that canvas. With an
  engine for which showing the matrix just read from a canvas restores that canvas, the
  canvas is the input canvas and the result is its encoding.
\<close>

theorem fallback_returns_original:
  assumes "snd (runScan E canvas) = Fallback url"
  shows "(\<exists>src. imread E canvas = Some src \<and> imshow E canvas src = Some (canvasAfter E canvas)) \<and>
         toDataURL E (canvasAfter E canvas) = Some url \<and>
         processDocumentScan E canvas = Some url \<and>
         ((\<forall>src. imread E canvas = Some src \<longrightarrow> imshow E canvas src = Some canvas) \<longrightarrow>
            canvasAfter E canvas = canvas \<and> toDataURL E canvas = Some url)"
proof -
  from assms obtain s' where
    b: "scanBody E \<lparr>canvasNow = canvas, live = {}\<rparr> = (s', Inr (False, url))" and l: "cvLoaded E"
    by (auto simp: runScan_Fallback_iff)
  have after: "canvasAfter E canvas = canvasNow s'"
    using b l by (simp add: canvasAfter_def runScan_def)
  from scanBody_fallback [OF b] obtain src where
    "imread E canvas = Some src" "imshow E canvas src = Some (canvasNow s')"
    "toDataURL E (canvasNow s') = Some url" by auto
  moreover have "processDocumentScan E canvas = Some url"
    using assms by (simp add: processDocumentScan_def)
  ultimately show ?thesis using after by auto
qed

theorem fallback_returns_original_witness:
  "snd (runScan (demoEngine None [smallContour]) demoCanvas) = Fallback ''data:image/jpeg'' \<and>
   imread (demoEngine None [smallContour]) demoCanvas =
     Some \<lparr>rows = 1000, cols = 1000, mdata = [0, 255, 255, 0]\<rparr> \<and>
   imshow (demoEngine None [smallContour]) demoCanvas
     \<lparr>rows = 1000, cols = 1000, mdata = [0, 255, 255, 0]\<rparr> = Some demoCanvas \<and>
   canvasAfter (demoEngine None [smallContour]) demoCanvas = demoCanvas \<and>
   toDataURL (demoEngine None [smallContour]) demoCanvas = Some ''data:image/jpeg'' \<and>
   processDocumentScan (demoEngine None [smallContour]) demoCanvas = Some ''data:image/jpeg''"
proof -
  let ?E = "demoEngine None [smallContour]"
  have r: "snd (runScan ?E demoCanvas) = Fallback ''data:image/jpeg''"
    by (simp add: run_nothing_found)
  have c: "\<forall>src. imread ?E demoCanvas = Some src \<longrightarrow> imshow ?E demoCanvas src = Some demoCanvas"
    by (simp add: demoEngine_def demoCall_def demoCanvas_def)
  have i: "imread ?E demoCanvas = Some \<lparr>rows = 1000, cols = 1000, mdata = [0, 255, 255, 0]\<rparr>"
    "imshow ?E demoCanvas \<lparr>rows = 1000, cols = 1000, mdata = [0, 255, 255, 0]\<rparr> =
       Some demoCanvas"
    by (simp_all add: demoEngine_def demoCall_def demoCanvas_def)
  show ?thesis
    using r c i fallback_returns_original [OF r] by blast
qed

subsection \<open>Failures\<close>

text \<open>
  C7. The result is \<^verbatim>\<open>null\<close> when the engine is not loaded, and when a statement of
  the \<^verbatim>\<open>try\<close> block throws; it is \<^verbatim>\<open>null\<close> in these two cases only, and no
  exception leaves the call. With an engine that is loaded and never throws the result is
  a string, whether a document is found or not; a call that ends on the fallback path
  returns a string.
\<close>

theorem scan_never_propagates:
  "(\<not> cvLoaded E \<longrightarrow> processDocumentScan E canvas = None) \<and>
   (\<forall>st. snd (scanBody E \<lparr>canvasNow = canvas, live = {}\<rparr>) = Inl st \<longrightarrow>
      processDocumentScan E canvas = None) \<and>
   (processDocumentScan E canvas = None \<longleftrightarrow>
      \<not> cvLoaded E \<or> (\<exists>st. snd (scanBody E \<lparr>canvasNow = canvas, live = {}\<rparr>) = Inl st)) \<and>
   (cvLoaded E \<and> neverThrows E \<longrightarrow> (\<exists>url. processDocumentScan E canvas = Some url)) \<and>
   (\<forall>url. snd (runScan E canvas) = Fallback url \<longrightarrow> processDocumentScan E canvas = Some url)"
proof -
  have "\<exists>url. processDocumentScan E canvas = Some url" if "cvLoaded E" "neverThrows E"
  proof -
    from yields_scanBody [OF that(2)] obtain s' v where
      "scanBody E \<lparr>canvasNow = canvas, live = {}\<rparr> = (s', Inr v)"
      unfolding yields_def by blast
    thus ?thesis using that(1)
      by (cases v) (simp add: processDocumentScan_def runScan_def)
  qed
  moreover have "processDocumentScan E canvas = Some url"
    if "snd (runScan E canvas) = Fallback url" for url
    using that by (simp add: processDocumentScan_def)
  ultimately show ?thesis
    using processDocumentScan_None_iff [of E canvas] by blast
qed


theorem scan_never_propagates_witness:
  "\<not> cvLoaded unloadedEngine \<and> processDocumentScan unloadedEngine demoCanvas = None \<and>
   snd (scanBody (demoEngine (Some AtCanny) []) \<lparr>canvasNow = demoCanvas, live = {}\<rparr>) =
     Inl AtCanny \<and>
   processDocumentScan (demoEngine (Some AtCanny) []) demoCanvas = None \<and>
   cvLoaded (demoEngine None [smallContour]) \<and> neverThrows (demoEngine None [smallContour]) \<and>
   (\<exists>url. processDocumentScan (demoEngine None [smallContour]) demoCanvas = Some url) \<and>
   snd (runScan (demoEngine None [smallContour]) demoCanvas) = Fallback ''data:image/jpeg'' \<and>
   processDocumentScan (demoEngine None [smallContour]) demoCanvas = Some ''data:image/jpeg''"
proof -
  have u: "\<not> cvLoaded unloadedEngine"
    by (simp add: unloadedEngine_def)
  have t: "snd (scanBody (demoEngine (Some AtCanny) []) \<lparr>canvasNow = demoCanvas, live = {}\<rparr>) =
      Inl AtCanny"
    by (simp add: scan_eval)
  have l: "cvLoaded (demoEngine None [smallContour])"
    by (simp add: demoEngine_def)
  have f: "snd (runScan (demoEngine None [smallContour]) demoCanvas) = Fallback ''data:image/jpeg''"
    by (simp add: run_nothing_found)
  show ?thesis
    using u t l f neverThrows_demoEngine [of "[smallContour]"]
      scan_never_propagates [of unloadedEngine demoCanvas]
      scan_never_propagates [of "demoEngine (Some AtCanny) []" demoCanvas]
      scan_never_propagates [of "demoEngine None [smallContour]" demoCanvas]
    by blast
qed

text \<open>
  C8, as stated: whenever the result is \<^verbatim>\<open>null\<close> the canvas is as it was. With an
  engine whose \<^verbatim>\<open>toDataURL\<close> throws, the document is found, warped and shown on the
  canvas, and the result is \<^verbatim>\<open>null\<close>: the canvas holds the 600 by 400 crop.
\<close>

theorem null_result_after_crop:
  "processDocumentScan (demoEngine (Some AtToDataURL) [demoContour]) demoCanvas = None \<and>
   canvasAfter (demoEngine (Some AtToDataURL) [demoContour]) demoCanvas =
     \<lparr>cwidth = 600, cheight = 400, cpixels = []\<rparr> \<and>
   canvasAfter (demoEngine (Some AtToDataURL) [demoContour]) demoCanvas \<noteq> demoCanvas"
  by (simp add: processDocumentScan_def canvasAfter_def run_toDataURL_throws)
    (simp add: demoCanvas_def)

text \<open>
  C8, amended. When the result is \<^verbatim>\<open>null\<close> because the engine is not loaded, or
  because a statement before \<^verbatim>\<open>imshow\<close> threw, the canvas is as it was.
\<close>

theorem early_failure_keeps_canvas:
  assumes "snd (runScan E canvas) = Unavailable \<or>
           (\<exists>st. snd (runScan E canvas) = Failed st \<and> st \<noteq> AtImshow \<and> st \<noteq> AtToDataURL)"
  shows "processDocumentScan E canvas = None \<and> canvasAfter E canvas = canvas"
proof -
  let ?s0 = "\<lparr>canvasNow = canvas, live = {}\<rparr>"
  from assms show ?thesis
  proof
    assume u: "snd (runScan E canvas) = Unavailable"
    hence "\<not> cvLoaded E"
      by (auto simp: runScan_def Let_def split: prod.splits sum.splits if_splits)
    thus ?thesis using u by (simp add: processDocumentScan_def canvasAfter_def runScan_def)
  next
    assume "\<exists>st. snd (runScan E canvas) = Failed st \<and> st \<noteq> AtImshow \<and> st \<noteq> AtToDataURL"
    then obtain st where f: "snd (runScan E canvas) = Failed st" and
      e: "st \<noteq> AtImshow" "st \<noteq> AtToDataURL" by blast
    from f obtain s' where b: "scanBody E ?s0 = (s', Inl st)" and l: "cvLoaded E"
      by (auto simp: runScan_def Let_def split: prod.splits sum.splits if_splits)
    have "canvasNow s' = canvasNow ?s0"
      using earlyThrowKeeps_scanBody b e by (rule earlyThrowKeepsD)
    moreover have "canvasAfter E canvas = canvasNow s'"
      using b l by (simp add: canvasAfter_def runScan_def)
    ultimately show ?thesis using f by (simp add: processDocumentScan_def)
  qed
qed

theorem early_failure_keeps_canvas_witness:
  "snd (runScan (demoEngine (Some AtWarpPerspective) [demoContour]) demoCanvas) =
     Failed AtWarpPerspective \<and>
   processDocumentScan (demoEngine (Some AtWarpPerspective) [demoContour]) demoCanvas = None \<and>
   canvasAfter (demoEngine (Some AtWarpPerspective) [demoContour]) demoCanvas = demoCanvas \<and>
   snd (runScan unloadedEngine demoCanvas) = Unavailable \<and>
   canvasAfter unloadedEngine demoCanvas = demoCanvas"
proof -
  let ?E = "demoEngine (Some AtWarpPerspective) [demoContour]"
  have f: "snd (runScan ?E demoCanvas) = Failed AtWarpPerspective"
    by (simp add: run_warp_throws)
  have u: "snd (runScan unloadedEngine demoCanvas) = Unavailable"
    by (simp add: runScan_def unloadedEngine_def)
  show ?thesis
    using f u early_failure_keeps_canvas [of ?E demoCanvas]
      early_failure_keeps_canvas [of unloadedEngine demoCanvas]
    by simp
qed

subsection \<open>Buffers\<close>

lemma alloc_eq: "alloc b s = (s', r) \<longleftrightarrow> s' = s\<lparr>live := insert b (live s)\<rparr> \<and> r = Inr ()"
  by (auto simp: alloc_def)

lemma free_eq: "free b s = (s', r) \<longleftrightarrow> s' = s\<lparr>live := live s - {b}\<rparr> \<and> r = Inr ()"
  by (auto simp: free_def)

lemma ret_eq: "ret v s = (s', r) \<longleftrightarrow> s' = s \<and> r = Inr v"
  by (auto simp: ret_def)

lemma live_scanContour:
  assumes "scanContour E c acc s = (s', Inr v)" and "Approx \<notin> live s"
  shows "live s' = live s"
  using assms
  by (auto simp: scanContour_def bnd_Inr_iff call_Inr_iff alloc_eq free_eq ret_eq
      split: if_splits)

lemma live_scanContours:
  "scanContours E cs acc s = (s', Inr v) \<Longrightarrow> Approx \<notin> live s \<Longrightarrow> live s' = live s"
proof (induction cs arbitrary: acc s)
  case Nil
  then show ?case by (simp add: ret_eq)
next
  case (Cons c cs)
  from Cons.prems(1) obtain s1 v1 where
    1: "scanContour E c acc s = (s1, Inr v1)" and 2: "scanContours E cs v1 s1 = (s', Inr v)"
    by (auto simp: bnd_Inr_iff)
  have l: "live s1 = live s" using 1 Cons.prems(2) by (rule live_scanContour)
  hence "live s' = live s1" using Cons.IH [OF 2] Cons.prems(2) by simp
  with l show ?case by simp
qed

lemma live_downscale: "downscale E src scale s = (s', Inr v) \<Longrightarrow> s' = s"
  by (auto simp: downscale_def call_Inr_iff split: if_splits)

lemma live_preprocess:
  "preprocess E smallSrc s = (s', Inr v) \<Longrightarrow>
   live s' = insert Edges (insert Blurred (insert Gray (live s)))"
  by (auto simp: preprocess_def bnd_Inr_iff call_Inr_iff alloc_eq)

lemma live_findLargestQuad:
  assumes "findLargestQuad E edges s = (s', Inr v)" and "Approx \<notin> live s"
  shows "live s' = insert Hierarchy (insert Contours (live s))"
proof -
  from assms(1) obtain contours where
    "scanContours E contours (0, None) (s\<lparr>live := insert Hierarchy (insert Contours (live s))\<rparr>) = (s', Inr v)"
    by (auto simp: findLargestQuad_def bnd_Inr_iff call_Inr_iff alloc_eq)
  from live_scanContours [OF this] assms(2) show ?thesis by simp
qed

lemma live_imshowCanvas: "imshowCanvas E m s = (s', Inr v) \<Longrightarrow> live s' = live s"
  by (auto simp: imshowCanvas_def split: option.splits)

lemma live_rectify:
  assumes "rectify E src scale d s = (s', Inr v)"
    and "SrcTri \<notin> live s" "DstTri \<notin> live s" "MTransform \<notin> live s"
  shows "live s' = live s"
  using assms
  by (auto simp: rectify_def Let_def split_def bnd_Inr_iff call_Inr_iff alloc_eq free_eq
      throw_def imshowCanvas_def split: list.splits option.splits)

lemma live_cleanup:
  "cleanup s = (s', Inr v) \<Longrightarrow>
   live s' = live s - {Src} - {Dst} - {SmallSrc} - {Gray} - {Blurred} - {Edges} - {Contours} - {Hierarchy}"
  by (auto simp: cleanup_def bnd_Inr_iff free_eq)

lemma live_scanBody:
  assumes "scanBody E s0 = (s', Inr v)" and "live s0 = {}"
  shows "live s' = {}"
proof -
  from assms(1) obtain src s1 scale smallSrc s2 edges s3 best s4 s5 s6 url where
    rd: "imreadCanvas E s0 = (s1, Inr src)" and
    ds: "downscale E src scale (s1\<lparr>live := insert SmallSrc (insert Dst (insert Src (live s1)))\<rparr>)
           = (s2, Inr smallSrc)" and
    pp: "preprocess E smallSrc s2 = (s3, Inr edges)" and
    fq: "findLargestQuad E edges s3 = (s4, Inr best)" and
    out: "(case snd best of Some maxContourData \<Rightarrow> rectify E src scale maxContourData
          | None \<Rightarrow> imshowCanvas E src) s4 = (s5, Inr ())" and
    cl: "cleanup s5 = (s6, Inr ())" and
    enc: "toDataURLCanvas E s6 = (s', Inr url)"
    unfolding scanBody_def by (auto simp: bnd_Inr_iff ret_def alloc_def)
  from rd have 1: "s1 = s0"
    by (simp add: imreadCanvas_def call_Inr_iff)
  have 2: "live s2 = {SmallSrc, Dst, Src}"
    using live_downscale [OF ds] 1 assms(2) by auto
  have 3: "live s3 = {Edges, Blurred, Gray, SmallSrc, Dst, Src}"
    using live_preprocess [OF pp] 2 by simp
  have 4: "live s4 = {Hierarchy, Contours, Edges, Blurred, Gray, SmallSrc, Dst, Src}"
    using live_findLargestQuad [OF fq] 3 by simp
  have 5: "live s5 = live s4"
  proof (cases "snd best")
    case None
    with out show ?thesis by (simp add: live_imshowCanvas)
  next
    case (Some d)
    with out have "rectify E src scale d s4 = (s5, Inr ())" by simp
    thus ?thesis by (rule live_rectify) (simp_all add: 4)
  qed
  have 6: "live s6 = {}"
    using live_cleanup [OF cl] 4 5 by (simp add: insert_Diff_if)
  from enc have "s' = s6"
    by (simp add: toDataURLCanvas_def call_Inr_iff)
  with 6 show ?thesis by simp
qed

text \<open>The two exits that return a string release every buffer of the list above.\<close>

lemma normal_exit_releases_buffers:
  assumes "snd (runScan E canvas) = Rectified url \<or> snd (runScan E canvas) = Fallback url"
  shows "leakedBuffers E canvas = {}"
proof -
  from assms obtain s' v where "scanBody E \<lparr>canvasNow = canvas, live = {}\<rparr> = (s', Inr v)"
    "fst (runScan E canvas) = s'"
    by (auto simp: runScan_def Let_def split: prod.splits sum.splits if_splits)
  thus ?thesis using live_scanBody [of E "\<lparr>canvasNow = canvas, live = {}\<rparr>" s' v]
    by (simp add: leakedBuffers_def)
qed

text \<open>
  C9 says that every buffer is released on every exit path, the handler's included. With
  an engine whose \<^verbatim>\<open>Canny\<close> throws the result is \<^verbatim>\<open>null\<close> and the six matrices
  allocated so far are still allocated; with one whose \<^verbatim>\<open>warpPerspective\<close> throws,
  eleven buffers are.
\<close>

theorem buffers_leak_on_exception:
  "processDocumentScan (demoEngine (Some AtCanny) []) demoCanvas = None \<and>
   leakedBuffers (demoEngine (Some AtCanny) []) demoCanvas =
     {Src, Dst, SmallSrc, Gray, Blurred, Edges} \<and>
   processDocumentScan (demoEngine (Some AtWarpPerspective) [demoContour]) demoCanvas = None \<and>
   leakedBuffers (demoEngine (Some AtWarpPerspective) [demoContour]) demoCanvas =
     {Src, Dst, SmallSrc, Gray, Blurred, Edges, Contours, Hierarchy, SrcTri, DstTri, MTransform}"
  by (auto simp: processDocumentScan_def leakedBuffers_def run_Canny_throws run_warp_throws)

end
